theory Spec2Isabelle
  imports Main "HOL-Library.Sublist" "HOL-Library.Monad_Syntax"
begin

section \<open>Text and character classes\<close>

text \<open>
  A Python \<open>str\<close> is modelled as a \<open>string\<close>: a list of characters whose code points lie
  below 256. The classes \<open>\s\<close> and \<open>\w\<close> of a \<open>str\<close> pattern are the Unicode ones; the two
  definitions below are those classes on the code points below 256.
\<close>

definition is_space :: "char \<Rightarrow> bool" where
  "is_space c =
     (let n = (of_char c :: nat)
      in (9 \<le> n \<and> n \<le> 13) \<or> (28 \<le> n \<and> n \<le> 32) \<or> n = 133 \<or> n = 160)"

definition is_word :: "char \<Rightarrow> bool" where
  "is_word c =
     (let n = (of_char c :: nat)
      in (48 \<le> n \<and> n \<le> 57) \<or> (65 \<le> n \<and> n \<le> 90) \<or> n = 95 \<or> (97 \<le> n \<and> n \<le> 122)
         \<or> n = 170 \<or> n = 178 \<or> n = 179 \<or> n = 181 \<or> n = 185 \<or> n = 186
         \<or> (188 \<le> n \<and> n \<le> 190) \<or> (192 \<le> n \<and> n \<le> 214)
         \<or> (216 \<le> n \<and> n \<le> 246) \<or> (248 \<le> n \<and> n \<le> 255))"

definition not_quote :: "char \<Rightarrow> bool" where
  "not_quote c = (c \<noteq> CHR 0x22)"

text \<open>Python's \<open>sub in s\<close> on strings: \<open>sub\<close> occurs in \<open>s\<close> as a contiguous piece.\<close>

definition str_in :: "string \<Rightarrow> string \<Rightarrow> bool" where
  "str_in sub s = sublist sub s"

section \<open>The Level Mapper\<close>

text \<open>The dictionary of \<open>convert_log_level\<close>, in the order the source lists its keys.\<close>

definition mapping :: "(string \<times> string) list" where
  "mapping =
    [(''LogLevel::DEBUG'', ''SLOG_DEBUG()''),
     (''LogLevel::INFO'', ''SLOG_INFO()''),
     (''LogLevel::WARNING'', ''SLOG_WARNING()''),
     (''LogLevel::ERROR_LEVEL'', ''SLOG_ERROR()''),
     (''LogLevel::CRITICAL'', ''SLOG_CRITICAL()'')]"

text \<open>\<open>mapping.get(old_level, 'SLOG_INFO()')\<close>.\<close>

definition convert_log_level :: "string \<Rightarrow> string" where
  "convert_log_level old_level =
     (case map_of mapping old_level of Some macro \<Rightarrow> macro | None \<Rightarrow> ''SLOG_INFO()'')"

section \<open>The regular expression\<close>

text \<open>
  The backtracking matcher of \<open>re\<close> is modelled with lists: a matcher maps the text still
  to be read to the list of the ways it can match a prefix of it, in the order the engine
  tries them, each way given by what it leaves unread (and by what it read, where a group
  captures it). Sequencing is \<open>List.bind\<close>; the engine's answer is the head of the list.
\<close>

text \<open>A literal piece of the pattern, compared character by character.\<close>

fun lit :: "string \<Rightarrow> string \<Rightarrow> string list" where
  "lit [] s = [s]"
| "lit (p # ps) [] = []"
| "lit (p # ps) (c # cs) = (if p = c then lit ps cs else [])"

text \<open>
  A greedy \<open>C*\<close> over a character class: the longest run first, then each shorter one,
  down to the empty run. Each way is (what was read, what is left).
\<close>

fun star :: "(char \<Rightarrow> bool) \<Rightarrow> string \<Rightarrow> (string \<times> string) list" where
  "star P [] = [([], [])]"
| "star P (c # cs) =
     (if P c then map (\<lambda>(m, r). (c # m, r)) (star P cs) @ [([], c # cs)]
      else [([], c # cs)])"

text \<open>A greedy \<open>C+\<close>: one character of the class, then \<open>C*\<close>.\<close>

fun plus :: "(char \<Rightarrow> bool) \<Rightarrow> string \<Rightarrow> (string \<times> string) list" where
  "plus P [] = []"
| "plus P (c # cs) = (if P c then map (\<lambda>(m, r). (c # m, r)) (star P cs) else [])"

text \<open>\<open>\s*\<close>, which captures nothing.\<close>

definition spaces :: "string \<Rightarrow> string list" where
  "spaces s = map snd (star is_space s)"

text \<open>The group \<open>(LogLevel::\w+)\<close>.\<close>

definition level_group :: "string \<Rightarrow> (string \<times> string) list" where
  "level_group s =
     lit ''LogLevel::'' s \<bind> (\<lambda>s1.
     map (\<lambda>(w, r). (''LogLevel::'' @ w, r)) (plus is_word s1))"

text \<open>\<open>"([^"]*)"\<close>: the quotes and the captured message between them.\<close>

definition message_group :: "string \<Rightarrow> (string \<times> string) list" where
  "message_group s =
     lit [CHR 0x22] s \<bind> (\<lambda>s1.
     star not_quote s1 \<bind> (\<lambda>(msg, s2).
     lit [CHR 0x22] s2 \<bind> (\<lambda>s3. [(msg, s3)])))"

text \<open>The body of the optional group: \<open>\s*,\s*__FILE__\s*,\s*__LINE__\<close>.\<close>

definition location :: "string \<Rightarrow> string list" where
  "location s =
     spaces s \<bind> (\<lambda>s1.
     lit '','' s1 \<bind> (\<lambda>s2.
     spaces s2 \<bind> (\<lambda>s3.
     lit ''__FILE__'' s3 \<bind> (\<lambda>s4.
     spaces s4 \<bind> (\<lambda>s5.
     lit '','' s5 \<bind> (\<lambda>s6.
     spaces s6 \<bind> (\<lambda>s7.
     lit ''__LINE__'' s7)))))))"

text \<open>A greedy \<open>(?:...)?\<close>: the ways with the group first, then the way without it.\<close>

definition optional :: "(string \<Rightarrow> string list) \<Rightarrow> string \<Rightarrow> string list" where
  "optional p s = p s @ [s]"

text \<open>The closing \<open>\s*\);\<close>.\<close>

definition closing :: "string \<Rightarrow> string list" where
  "closing s = spaces s \<bind> (\<lambda>s1. lit '');'' s1)"

text \<open>
  The whole pattern of \<open>convert_logger_log\<close>, anchored at the head of the text:
  every way it matches, as (group 1, group 2, text after the match).
\<close>

definition pattern :: "string \<Rightarrow> (string \<times> string \<times> string) list" where
  "pattern s =
     lit ''Logger::log'' s \<bind> (\<lambda>s1.
     spaces s1 \<bind> (\<lambda>s2.
     lit ''('' s2 \<bind> (\<lambda>s3.
     spaces s3 \<bind> (\<lambda>s4.
     level_group s4 \<bind> (\<lambda>(level, s5).
     spaces s5 \<bind> (\<lambda>s6.
     lit '','' s6 \<bind> (\<lambda>s7.
     spaces s7 \<bind> (\<lambda>s8.
     message_group s8 \<bind> (\<lambda>(message, s9).
     optional location s9 \<bind> (\<lambda>s10.
     closing s10 \<bind> (\<lambda>s11.
     [(level, message, s11)])))))))))))"

text \<open>
  The end of the pattern on its own, \<open>(?:...)?\s*\);\<close>: the optional group and the closing,
  or the closing alone, in the order the engine tries them.
\<close>

definition tail_ways :: "string \<Rightarrow> string list" where
  "tail_ways s = optional location s \<bind> closing"

text \<open>\<open>pattern.match\<close> at the head of the text: the first way, if there is one.\<close>

definition match_here :: "string \<Rightarrow> (string \<times> string \<times> string) option" where
  "match_here s = (case pattern s of [] \<Rightarrow> None | m # _ \<Rightarrow> Some m)"

section \<open>The Call Rewriter\<close>

text \<open>The inner function \<open>replacer\<close>, with its three branches as the source has them.\<close>

definition replacer :: "string \<Rightarrow> string \<Rightarrow> string" where
  "replacer level message =
     (let macro = convert_log_level level in
      if str_in ''[FAILED]'' message \<or> str_in ''[ERROR]'' message
        then macro @ ''.message('' @ [CHR 0x22] @ message @ [CHR 0x22] @ '');''
      else if str_in ''[OK]'' message \<or> str_in ''[INFO]'' message
        then macro @ ''.message('' @ [CHR 0x22] @ message @ [CHR 0x22] @ '');''
      else macro @ ''.message('' @ [CHR 0x22] @ message @ [CHR 0x22] @ '');'')"

text \<open>
  Every way the pattern matches reads at least the call's name, so what is left after a
  match is shorter than the text: this is what ends the scan of \<open>re.sub\<close>.
\<close>

lemma lit_length: "r \<in> set (lit p s) \<Longrightarrow> length r + length p = length s"
  by (induction p s rule: lit.induct) (auto split: if_splits)

lemma star_append: "(m, r) \<in> set (star P s) \<Longrightarrow> s = m @ r"
  by (induction s arbitrary: m) (auto split: if_splits)

lemma plus_append: "(m, r) \<in> set (plus P s) \<Longrightarrow> s = m @ r \<and> m \<noteq> []"
  by (cases s) (auto split: if_splits dest: star_append)

lemma spaces_length: "r \<in> set (spaces s) \<Longrightarrow> length r \<le> length s"
  by (auto simp: spaces_def dest: star_append)

lemma level_group_length: "(l, r) \<in> set (level_group s) \<Longrightarrow> length r \<le> length s"
  by (auto simp: level_group_def set_list_bind dest!: lit_length plus_append)

lemma message_group_length: "(m, r) \<in> set (message_group s) \<Longrightarrow> length r \<le> length s"
  by (auto simp: message_group_def set_list_bind dest!: lit_length star_append)

lemma location_length: "r \<in> set (location s) \<Longrightarrow> length r \<le> length s"
  by (auto simp: location_def set_list_bind dest!: lit_length spaces_length)

lemma optional_length: "r \<in> set (optional location s) \<Longrightarrow> length r \<le> length s"
  by (auto simp: optional_def dest: location_length)

lemma closing_length: "r \<in> set (closing s) \<Longrightarrow> length r \<le> length s"
  by (auto simp: closing_def set_list_bind dest!: lit_length spaces_length)

lemma pattern_length: "(l, m, r) \<in> set (pattern s) \<Longrightarrow> length r < length s"
  by (auto simp: pattern_def set_list_bind dest!: lit_length spaces_length level_group_length
      message_group_length optional_length closing_length)

lemma match_here_length: "match_here s = Some (l, m, r) \<Longrightarrow> length r < length s"
  using pattern_length[of l m r s] by (auto simp: match_here_def split: list.splits)

text \<open>
  \<open>re.sub(pattern, replacer, line)\<close>: scan from the left; where the pattern matches, put
  the replacer's text and go on after the match; where it does not, keep the character
  and go on one character later. (The pattern matches no empty text, so the rule of
  \<open>re.sub\<close> for empty matches never applies.)
\<close>

function re_sub :: "string \<Rightarrow> string" where
  "re_sub s =
     (case match_here s of
        Some (level, message, rest) \<Rightarrow> replacer level message @ re_sub rest
      | None \<Rightarrow> (case s of [] \<Rightarrow> [] | c # cs \<Rightarrow> c # re_sub cs))"
  by pat_completeness auto
termination
  by (relation "measure length") (auto dest: match_here_length)

declare re_sub.simps [simp del]

definition review_marker :: string where
  "review_marker = '' // TODO: Convert to structured logging''"

definition convert_logger_log :: "string \<Rightarrow> string" where
  "convert_logger_log line =
     (let new_line = re_sub line in
      if str_in ''Logger::log'' line \<and> new_line = line then line @ review_marker
      else new_line)"

section \<open>The File Job Driver\<close>

text \<open>
  A file is its text, and whether it may be opened for reading and for writing. The text
  is what \<open>open(filepath, 'r')\<close> hands to the program and takes from it; on a platform
  whose line terminator is the line feed, text mode writes the characters as they are.
  The failures modelled are those of opening the file: a missing file and a refused
  permission. A text that cannot be decoded is outside the model.
\<close>

record file_entry =
  content :: string
  readable :: bool
  writable :: bool

type_synonym filesystem = "string \<rightharpoonup> file_entry"

datatype os_error = FileNotFoundError | PermissionError

text \<open>Text mode reads with universal newlines: CR LF and a lone CR arrive as LF.\<close>

fun translate_newlines :: "string \<Rightarrow> string" where
  "translate_newlines [] = []"
| "translate_newlines (c # cs) =
     (if c = CHR 0x0D then
        (case cs of
           [] \<Rightarrow> [CHR 0x0A]
         | d # ds \<Rightarrow> if d = CHR 0x0A then CHR 0x0A # translate_newlines ds
                    else CHR 0x0A # translate_newlines cs)
      else c # translate_newlines cs)"

text \<open>\<open>f.readlines()\<close>: the text cut after each line feed; every line keeps its terminator.\<close>

fun readlines :: "string \<Rightarrow> string list" where
  "readlines [] = []"
| "readlines (c # cs) =
     (if c = CHR 0x0A then [c] # readlines cs
      else (case readlines cs of [] \<Rightarrow> [[c]] | l # ls \<Rightarrow> (c # l) # ls))"

definition open_read :: "filesystem \<Rightarrow> string \<Rightarrow> os_error + string" where
  "open_read fs filepath =
     (case fs filepath of
        None \<Rightarrow> Inl FileNotFoundError
      | Some f \<Rightarrow> if readable f then Inr (translate_newlines (content f))
                 else Inl PermissionError)"

text \<open>\<open>open(filepath, 'w')\<close> followed by \<open>f.writelines(...)\<close>: the old text is replaced.\<close>

definition open_write :: "filesystem \<Rightarrow> string \<Rightarrow> string list \<Rightarrow> os_error + filesystem" where
  "open_write fs filepath lines =
     (case fs filepath of
        None \<Rightarrow>
          Inr (fs(filepath \<mapsto> \<lparr>content = concat lines, readable = True, writable = True\<rparr>))
      | Some f \<Rightarrow> if writable f then Inr (fs(filepath \<mapsto> f\<lparr>content := concat lines\<rparr>))
                 else Inl PermissionError)"

text \<open>What the program prints, one value per printed line.\<close>

datatype printed = Usage | Processed string | ErrorProcessing string os_error

definition process_file :: "filesystem \<Rightarrow> string \<Rightarrow> os_error + (filesystem \<times> printed list)" where
  "process_file fs filepath =
     (case open_read fs filepath of
        Inl e \<Rightarrow> Inl e
      | Inr text \<Rightarrow>
          (let lines = readlines text;
               converted_lines = map convert_logger_log lines
           in case open_write fs filepath converted_lines of
                Inl e \<Rightarrow> Inl e
              | Inr fs' \<Rightarrow> Inr (fs', [Processed filepath])))"

text \<open>The loop of the main block over \<open>sys.argv[1:]\<close>, with its \<open>try\<close> and \<open>except\<close>.\<close>

fun process_all :: "filesystem \<Rightarrow> string list \<Rightarrow> filesystem \<times> printed list" where
  "process_all fs [] = (fs, [])"
| "process_all fs (filepath # rest) =
     (case process_file fs filepath of
        Inr (fs', out) \<Rightarrow>
          (case process_all fs' rest of (fs'', out') \<Rightarrow> (fs'', out @ out'))
      | Inl e \<Rightarrow>
          (case process_all fs rest of
             (fs'', out') \<Rightarrow> (fs'', ErrorProcessing filepath e # out')))"

text \<open>The main block: the file system after the run, what was printed, the exit code.\<close>

definition main :: "string list \<Rightarrow> filesystem \<Rightarrow> filesystem \<times> printed list \<times> nat" where
  "main argv fs =
     (if length argv < 2 then (fs, [Usage], 1)
      else (case process_all fs (tl argv) of (fs', out) \<Rightarrow> (fs', out, 0)))"

section \<open>Notions of the specification\<close>

text \<open>
  The definitions below are not code of the program. They name what the specification
  talks about (the shape of a legacy call, a match somewhere in a line, what a printed
  line reports) and fix the concrete inputs of the instances.
\<close>

text \<open>
  The branch-free function of the specification: the macro name, then the accessor call
  carrying the message text, then a semicolon.
\<close>

definition replacer_spec :: "string \<Rightarrow> string \<Rightarrow> string" where
  "replacer_spec level message =
     convert_log_level level @ ''.message('' @ [CHR 0x22] @ message @ [CHR 0x22] @ '');''"

text \<open>
  The call shape of the specification, written as data: the legacy call name, an opening
  parenthesis, a level token, a comma, a double-quoted message text without a double quote
  in it, optionally the pair of positional markers, a closing parenthesis and a semicolon,
  with whitespace allowed around the commas and the parentheses. A \<open>legacy_call\<close> holds
  the parts that vary; \<open>call_text\<close> is the text of the call.
\<close>

record legacy_call =
  gap_name :: string
  gap_open :: string
  level_word :: string
  gap_level :: string
  gap_comma :: string
  message_text :: string
  location_gaps :: "(string \<times> string \<times> string \<times> string) option"
  gap_close :: string

definition location_text :: "(string \<times> string \<times> string \<times> string) option \<Rightarrow> string" where
  "location_text loc =
     (case loc of
        None \<Rightarrow> []
      | Some (g1, g2, g3, g4) \<Rightarrow> g1 @ '','' @ g2 @ ''__FILE__'' @ g3 @ '','' @ g4 @ ''__LINE__'')"

definition call_text :: "legacy_call \<Rightarrow> string" where
  "call_text c =
     ''Logger::log'' @ gap_name c @ ''('' @ gap_open c @ ''LogLevel::'' @ level_word c
       @ gap_level c @ '','' @ gap_comma c @ [CHR 0x22] @ message_text c @ [CHR 0x22]
       @ location_text (location_gaps c) @ gap_close c @ '');''"

definition level_token :: "legacy_call \<Rightarrow> string" where
  "level_token c = ''LogLevel::'' @ level_word c"

text \<open>The gaps are whitespace, the level is an identifier, the message has no double quote.\<close>

definition well_formed :: "legacy_call \<Rightarrow> bool" where
  "well_formed c =
     (list_all is_space (gap_name c) \<and> list_all is_space (gap_open c) \<and>
      level_word c \<noteq> [] \<and> list_all is_word (level_word c) \<and>
      list_all is_space (gap_level c) \<and> list_all is_space (gap_comma c) \<and>
      list_all not_quote (message_text c) \<and>
      (case location_gaps c of
         None \<Rightarrow> True
       | Some (g1, g2, g3, g4) \<Rightarrow>
           list_all is_space g1 \<and> list_all is_space g2 \<and>
           list_all is_space g3 \<and> list_all is_space g4) \<and>
      list_all is_space (gap_close c))"

text \<open>What the specification puts in place of the call.\<close>

definition rewritten_call :: "legacy_call \<Rightarrow> string" where
  "rewritten_call c = replacer_spec (level_token c) (message_text c)"

text \<open>
  A line made of pieces of other text, each followed by a call, and a last piece of text;
  and the same line with each call replaced.
\<close>

definition line_of :: "(string \<times> legacy_call) list \<Rightarrow> string \<Rightarrow> string" where
  "line_of segs rest = concat (map (\<lambda>(t, c). t @ call_text c) segs) @ rest"

definition rewritten_line_of :: "(string \<times> legacy_call) list \<Rightarrow> string \<Rightarrow> string" where
  "rewritten_line_of segs rest = concat (map (\<lambda>(t, c). t @ rewritten_call c) segs) @ rest"

text \<open>Two calls of the shape, for the concrete instances below.\<close>

definition example_call :: legacy_call where
  "example_call =
     \<lparr>gap_name = '' '', gap_open = [], level_word = ''WARNING'', gap_level = '' '',
      gap_comma = ''  '', message_text = ''[FAILED] low'',
      location_gaps = Some ('' '', [], [], '' ''), gap_close = '' ''\<rparr>"

definition plain_call :: legacy_call where
  "plain_call =
     \<lparr>gap_name = [], gap_open = [], level_word = ''DEBUG'', gap_level = [],
      gap_comma = '' '', message_text = ''tick'',
      location_gaps = None, gap_close = []\<rparr>"

text \<open>\<open>re.search\<close> with the pattern: it matches somewhere in the text.\<close>

fun has_match :: "string \<Rightarrow> bool" where
  "has_match [] = (case match_here [] of Some _ \<Rightarrow> True | None \<Rightarrow> False)"
| "has_match (c # cs) = (case match_here (c # cs) of Some _ \<Rightarrow> True | None \<Rightarrow> has_match cs)"

text \<open>A printed line is about a path: it was processed, or it failed with a cause.\<close>

definition reports :: "string \<Rightarrow> printed \<Rightarrow> bool" where
  "reports filepath p =
     (case p of
        Usage \<Rightarrow> False
      | Processed q \<Rightarrow> q = filepath
      | ErrorProcessing q e \<Rightarrow> q = filepath)"

text \<open>A file of two lines, the first a legacy call that the pattern does not match.\<close>

definition two_lines :: string where
  "two_lines = ''Logger::log(level, text);\<newline>int x = 1;\<newline>''"

text \<open>The call up to its message is of the legacy shape.\<close>

definition well_spaced :: "legacy_call \<Rightarrow> bool" where
  "well_spaced c =
     (list_all is_space (gap_name c) \<and> list_all is_space (gap_open c) \<and>
      level_word c \<noteq> [] \<and> list_all is_word (level_word c) \<and>
      list_all is_space (gap_level c) \<and> list_all is_space (gap_comma c))"

text \<open>
  The end of a call, after the closing quote of the message: optionally the pair of
  positional markers, then optional whitespace, a closing parenthesis and a semicolon.
\<close>

definition location_ok :: "(string \<times> string \<times> string \<times> string) option \<Rightarrow> bool" where
  "location_ok loc =
     (case loc of
        None \<Rightarrow> True
      | Some (g1, g2, g3, g4) \<Rightarrow>
          list_all is_space g1 \<and> list_all is_space g2 \<and>
          list_all is_space g3 \<and> list_all is_space g4)"

definition call_end :: "string \<Rightarrow> bool" where
  "call_end s =
     (\<exists>loc g r. location_ok loc \<and> list_all is_space g \<and>
        s = location_text loc @ g @ '');'' @ r)"

text \<open>A call of the legacy shape begins at the head of the text.\<close>

definition starts_call :: "string \<Rightarrow> bool" where
  "starts_call s = (\<exists>c r. well_formed c \<and> s = call_text c @ r)"

text \<open>
  No call of the legacy shape begins inside \<open>pre\<close>, when \<open>rest\<close> is the text that follows
  it; and a call of the legacy shape stands somewhere in the line.
\<close>

definition no_call_before :: "string \<Rightarrow> string \<Rightarrow> bool" where
  "no_call_before pre rest = (\<forall>v. suffix v pre \<and> v \<noteq> [] \<longrightarrow> \<not> starts_call (v @ rest))"

definition contains_call :: "string \<Rightarrow> bool" where
  "contains_call line = (\<exists>pre c post. well_formed c \<and> line = pre @ call_text c @ post)"

text \<open>
  The calls that a scan from left to right meets: each text piece is followed by a call of
  the shape, no call of the shape begins inside a text piece, and none is left in the last
  piece.
\<close>

fun first_calls :: "(string \<times> legacy_call) list \<Rightarrow> string \<Rightarrow> bool" where
  "first_calls [] rest = (\<not> contains_call rest)"
| "first_calls ((t, c) # segs) rest =
     (well_formed c \<and> no_call_before t (call_text c @ line_of segs rest) \<and>
      first_calls segs rest)"

text \<open>The pattern matches at no position inside \<open>pre\<close>, when \<open>rest\<close> follows it.\<close>

fun no_match_before :: "string \<Rightarrow> string \<Rightarrow> bool" where
  "no_match_before [] rest = True"
| "no_match_before (x # t) rest =
     (case match_here ((x # t) @ rest) of Some _ \<Rightarrow> False | None \<Rightarrow> no_match_before t rest)"


text \<open>
  For a call whose message text contains a double quote: the text of the call that comes
  after the first double quote of the message.
\<close>

definition after_first_quote :: "legacy_call \<Rightarrow> string" where
  "after_first_quote c =
     tl (dropWhile not_quote (message_text c)) @ [CHR 0x22]
       @ location_text (location_gaps c) @ gap_close c @ '');''"

text \<open>Two calls whose message contains a double quote, for the concrete instances below.\<close>

definition paren_call :: legacy_call where
  "paren_call =
     \<lparr>gap_name = [], gap_open = [], level_word = ''INFO'', gap_level = [],
      gap_comma = '' '', message_text = ''a\") b'',
      location_gaps = None, gap_close = []\<rparr>"

definition split_call :: legacy_call where
  "split_call =
     \<lparr>gap_name = [], gap_open = [], level_word = ''INFO'', gap_level = [],
      gap_comma = '' '', message_text = ''a\"); b\"c'',
      location_gaps = None, gap_close = []\<rparr>"

text \<open>
  What a file job does, as the specification describes it. The text of the file is
  rewritten line by line. The job fails for a missing file and for a file that may not be
  read or may not be written; it then leaves the file system as it is. Otherwise the file
  gets the rewritten text. One line is printed for the path: that it was processed, or
  the path and the cause of the failure.
\<close>

definition rewritten_text :: "string \<Rightarrow> string" where
  "rewritten_text text = concat (map convert_logger_log (readlines (translate_newlines text)))"

definition job_failure :: "filesystem \<Rightarrow> string \<Rightarrow> os_error option" where
  "job_failure fs filepath =
     (case fs filepath of
        None \<Rightarrow> Some FileNotFoundError
      | Some f \<Rightarrow> if readable f \<and> writable f then None else Some PermissionError)"

definition after_job :: "filesystem \<Rightarrow> string \<Rightarrow> filesystem" where
  "after_job fs filepath =
     (case fs filepath of
        None \<Rightarrow> fs
      | Some f \<Rightarrow>
          if readable f \<and> writable f
          then fs(filepath \<mapsto> f\<lparr>content := rewritten_text (content f)\<rparr>)
          else fs)"

definition job_line :: "filesystem \<Rightarrow> string \<Rightarrow> printed" where
  "job_line fs filepath =
     (case job_failure fs filepath of
        None \<Rightarrow> Processed filepath
      | Some e \<Rightarrow> ErrorProcessing filepath e)"

text \<open>The lines printed for a list of paths, each job starting from what the last one left.\<close>

fun batch_lines :: "filesystem \<Rightarrow> string list \<Rightarrow> printed list" where
  "batch_lines fs [] = []"
| "batch_lines fs (filepath # rest) = job_line fs filepath # batch_lines (after_job fs filepath) rest"

text \<open>
  A file system for the concrete run below: two source files to rewrite, one that may not
  be written, and one that the run does not name.
\<close>

definition batch_fs :: filesystem where
  "batch_fs =
     [''a.cpp'' \<mapsto>
        \<lparr>content = ''Logger::log(LogLevel::DEBUG, \"tick\");\<newline>int x = 1;\<newline>'',
         readable = True, writable = True\<rparr>,
      ''locked.cpp'' \<mapsto>
        \<lparr>content = ''Logger::log(LogLevel::INFO, \"up\");'',
         readable = True, writable = False\<rparr>,
      ''b.cpp'' \<mapsto>
        \<lparr>content = ''Logger::log(LogLevel::ERROR_LEVEL, \"disk full\");'',
         readable = True, writable = True\<rparr>,
      ''keep.cpp'' \<mapsto>
        \<lparr>content = ''Logger::log(LogLevel::INFO, \"kept\");'',
         readable = True, writable = True\<rparr>]"

section \<open>The pattern never backtracks\<close>

text \<open>
  Every greedy repetition of the pattern is followed by a character outside its class, so
  only its longest run can lead to a match: the ways of the pattern are those of a matcher
  that skips each run whole (\<open>dropWhile\<close>) and compares the literals.
\<close>

lemma lit_prefix: "lit p s = (if prefix p s then [drop (length p) s] else [])"
  by (induction p s rule: lit.induct) auto

lemma lit_append: "lit p (p @ r) = [r]"
  by (induction p) auto

lemma bind_map: "map g xs \<bind> f = xs \<bind> (\<lambda>x. f (g x))"
  by (induction xs) auto

lemma bind_append: "(xs @ ys) \<bind> f = (xs \<bind> f) @ (ys \<bind> f)"
  by (induction xs) auto

lemma star_det:
  assumes "\<And>m c r. P c \<Longrightarrow> f (m, c # r) = []"
  shows "star P s \<bind> f = f (takeWhile P s, dropWhile P s)"
  using assms
proof (induction s arbitrary: f)
  case Nil
  then show ?case by simp
next
  case (Cons c cs)
  show ?case
  proof (cases "P c")
    case True
    have "star P cs \<bind> (\<lambda>x. f (case x of (m, r) \<Rightarrow> (c # m, r)))
          = f (c # takeWhile P cs, dropWhile P cs)"
      using Cons.IH[of "\<lambda>x. f (case x of (m, r) \<Rightarrow> (c # m, r))"] Cons.prems by simp
    with True Cons.prems show ?thesis
      by (simp add: bind_map bind_append)
  next
    case False
    then show ?thesis by simp
  qed
qed

lemma plus_det:
  assumes "\<And>m c r. P c \<Longrightarrow> f (m, c # r) = []"
  shows "plus P s \<bind> f =
         (if takeWhile P s = [] then [] else f (takeWhile P s, dropWhile P s))"
proof (cases s)
  case Nil
  then show ?thesis by simp
next
  case (Cons c cs)
  have "star P cs \<bind> (\<lambda>x. f (case x of (m, r) \<Rightarrow> (c # m, r)))
          = f (c # takeWhile P cs, dropWhile P cs)"
    using star_det[of P "\<lambda>x. f (case x of (m, r) \<Rightarrow> (c # m, r))" cs] assms by simp
  with Cons show ?thesis by (simp add: bind_map)
qed

lemma spaces_det:
  assumes "\<And>c r. is_space c \<Longrightarrow> f (c # r) = []"
  shows "spaces s \<bind> f = f (dropWhile is_space s)"
  using star_det[of is_space "\<lambda>x. f (snd x)" s] assms
  by (simp add: spaces_def bind_map)

lemma spaces_lit:
  assumes "\<not> is_space x"
  shows "spaces s \<bind> (\<lambda>t. lit (x # q) t \<bind> k) = lit (x # q) (dropWhile is_space s) \<bind> k"
  using assms by (intro spaces_det) auto

lemma list_bind_assoc: "((xs :: 'a list) \<bind> f) \<bind> g = xs \<bind> (\<lambda>x. (f x :: 'b list) \<bind> (g :: 'b \<Rightarrow> 'c list))"
  by (induction xs) (auto simp: bind_append)

lemma not_space_lits [simp]:
  "\<not> is_space CHR ''(''" "\<not> is_space CHR '',''" "\<not> is_space CHR 0x22"
  "\<not> is_space CHR '')''" "\<not> is_space CHR ''L''" "\<not> is_space CHR ''_''"
  by (simp_all add: is_space_def)

lemma word_not_space: "is_word c \<Longrightarrow> \<not> is_space c"
  by (auto simp: is_word_def is_space_def Let_def)

lemma word_not_comma: "is_word c \<Longrightarrow> c \<noteq> CHR '',''"
  by (auto simp: is_word_def)

lemma closing_det: "closing s = lit '');'' (dropWhile is_space s)"
  unfolding closing_def by (rule spaces_det) (auto simp: is_space_def)

lemma location_det:
  "location s =
     lit '','' (dropWhile is_space s) \<bind> (\<lambda>s2.
     lit ''__FILE__'' (dropWhile is_space s2) \<bind> (\<lambda>s4.
     lit '','' (dropWhile is_space s4) \<bind> (\<lambda>s6.
     lit ''__LINE__'' (dropWhile is_space s6))))"
proof -
  have last: "spaces s6 \<bind> lit ''__LINE__'' = lit ''__LINE__'' (dropWhile is_space s6)" for s6
    by (rule spaces_det) (auto simp: is_space_def)
  show ?thesis
    unfolding location_def
    by (simp only: spaces_lit not_space_lits not_False_eq_True last)
qed

lemma message_group_det:
  "message_group s \<bind> K =
     lit [CHR 0x22] s \<bind> (\<lambda>s1.
     lit [CHR 0x22] (dropWhile not_quote s1) \<bind> (\<lambda>s3. K (takeWhile not_quote s1, s3)))"
proof -
  have "star not_quote s1 \<bind> (\<lambda>(msg, s2). lit [CHR 0x22] s2 \<bind> (\<lambda>s3. K (msg, s3)))
        = lit [CHR 0x22] (dropWhile not_quote s1) \<bind> (\<lambda>s3. K (takeWhile not_quote s1, s3))" for s1
    using star_det[of not_quote "\<lambda>(msg, s2). lit [CHR 0x22] s2 \<bind> (\<lambda>s3. K (msg, s3))" s1]
    by (simp add: not_quote_def)
  then show ?thesis
    by (simp add: message_group_def list_bind_assoc split_def)
qed

lemma level_group_det:
  assumes "\<And>l c r. is_word c \<Longrightarrow> K (l, c # r) = []"
  shows "level_group s \<bind> K =
     lit ''LogLevel::'' s \<bind> (\<lambda>s1.
       if takeWhile is_word s1 = [] then []
       else K (''LogLevel::'' @ takeWhile is_word s1, dropWhile is_word s1))"
proof -
  have "plus is_word s1 \<bind> (\<lambda>x. K (case x of (w, r) \<Rightarrow> (''LogLevel::'' @ w, r)))
        = (if takeWhile is_word s1 = [] then []
           else K (''LogLevel::'' @ takeWhile is_word s1, dropWhile is_word s1))" for s1
    using plus_det[of is_word "\<lambda>x. K (case x of (w, r) \<Rightarrow> (''LogLevel::'' @ w, r))" s1] assms
    by simp
  then show ?thesis
    by (simp add: level_group_def list_bind_assoc bind_map)
qed

lemma pattern_det:
  "pattern s =
     lit ''Logger::log'' s \<bind> (\<lambda>s1.
     lit ''('' (dropWhile is_space s1) \<bind> (\<lambda>s3.
     lit ''LogLevel::'' (dropWhile is_space s3) \<bind> (\<lambda>s4.
       if takeWhile is_word s4 = [] then []
       else lit '','' (dropWhile is_space (dropWhile is_word s4)) \<bind> (\<lambda>s7.
            lit [CHR 0x22] (dropWhile is_space s7) \<bind> (\<lambda>s8.
            lit [CHR 0x22] (dropWhile not_quote s8) \<bind> (\<lambda>s9.
            map (\<lambda>r. (''LogLevel::'' @ takeWhile is_word s4, takeWhile not_quote s8, r))
              (tail_ways s9)))))))"
proof -
  have tail: "optional location s9 \<bind> (\<lambda>s10. closing s10 \<bind> (\<lambda>s11. [(l, m, s11)]))
              = map (\<lambda>r. (l, m, r)) (tail_ways s9)" for s9 l m
    by (simp add: optional_def tail_ways_def bind_append list_bind_assoc List.bind_def
        map_concat comp_def)
  have msg: "spaces s7 \<bind> (\<lambda>s8. message_group s8 \<bind> K)
             = lit [CHR 0x22] (dropWhile is_space s7) \<bind> (\<lambda>s1.
               lit [CHR 0x22] (dropWhile not_quote s1) \<bind> (\<lambda>s3. K (takeWhile not_quote s1, s3)))"
    for s7 K
    unfolding message_group_det by (rule spaces_lit) simp
  have lvl: "spaces s3 \<bind> (\<lambda>s4. level_group s4 \<bind> (\<lambda>(level, s5).
               lit '','' (dropWhile is_space s5) \<bind> K level))
             = lit ''LogLevel::'' (dropWhile is_space s3) \<bind> (\<lambda>s4.
                 if takeWhile is_word s4 = [] then []
                 else lit '','' (dropWhile is_space (dropWhile is_word s4))
                        \<bind> K (''LogLevel::'' @ takeWhile is_word s4))"
    for s3 K
  proof -
    have inner: "level_group s4 \<bind> (\<lambda>(level, s5). lit '','' (dropWhile is_space s5) \<bind> K level)
          = lit ''LogLevel::'' s4 \<bind> (\<lambda>s1.
              if takeWhile is_word s1 = [] then []
              else lit '','' (dropWhile is_space (dropWhile is_word s1))
                     \<bind> K (''LogLevel::'' @ takeWhile is_word s1))" for s4
      by (subst level_group_det) (auto simp: word_not_space word_not_comma is_word_def)
    show ?thesis
      unfolding inner by (rule spaces_lit) simp
  qed
  show ?thesis
    unfolding pattern_def tail
    by (simp only: msg lvl spaces_lit not_space_lits not_False_eq_True prod.case)
qed

lemma tail_ways_det:
  "tail_ways s =
     (lit '','' (dropWhile is_space s) \<bind> (\<lambda>s2.
      lit ''__FILE__'' (dropWhile is_space s2) \<bind> (\<lambda>s4.
      lit '','' (dropWhile is_space s4) \<bind> (\<lambda>s6.
      lit ''__LINE__'' (dropWhile is_space s6) \<bind> (\<lambda>s8.
      lit '');'' (dropWhile is_space s8))))))
     @ lit '');'' (dropWhile is_space s)"
  by (simp add: tail_ways_def optional_def bind_append location_det list_bind_assoc
      closing_det[abs_def])

section \<open>The Level Mapper and the replacer\<close>

lemma replacer_branch_free:
  "replacer level message =
     convert_log_level level @ ''.message('' @ [CHR 0x22] @ message @ [CHR 0x22] @ '');''"
  by (simp add: replacer_def Let_def)

lemma macro_head: "\<exists>t. convert_log_level l = CHR ''S'' # t"
  by (simp add: convert_log_level_def mapping_def split: option.splits if_splits)

lemma replacer_head: "\<exists>t. replacer l m = CHR ''S'' # t"
  using macro_head[of l] by (auto simp: replacer_branch_free)

text \<open>
  Claim C3. \<open>convert_log_level\<close> maps each of the five recognised level tokens to its
  macro name, the five macro names are distinct, and every other string is mapped to the
  INFO macro \<open>SLOG_INFO()\<close>. The function is a pure lookup: it has no effect to model.
\<close>

theorem convert_log_level_table:
  "convert_log_level ''LogLevel::DEBUG'' = ''SLOG_DEBUG()'' \<and>
   convert_log_level ''LogLevel::INFO'' = ''SLOG_INFO()'' \<and>
   convert_log_level ''LogLevel::WARNING'' = ''SLOG_WARNING()'' \<and>
   convert_log_level ''LogLevel::ERROR_LEVEL'' = ''SLOG_ERROR()'' \<and>
   convert_log_level ''LogLevel::CRITICAL'' = ''SLOG_CRITICAL()'' \<and>
   distinct (map convert_log_level
     [''LogLevel::DEBUG'', ''LogLevel::INFO'', ''LogLevel::WARNING'',
      ''LogLevel::ERROR_LEVEL'', ''LogLevel::CRITICAL'']) \<and>
   (\<forall>t. t \<notin> {''LogLevel::DEBUG'', ''LogLevel::INFO'', ''LogLevel::WARNING'',
               ''LogLevel::ERROR_LEVEL'', ''LogLevel::CRITICAL''}
        \<longrightarrow> convert_log_level t = ''SLOG_INFO()'')"
  by (simp add: convert_log_level_def mapping_def)

theorem convert_log_level_table_witness:
  "''LogLevel::TRACE'' \<notin> {''LogLevel::DEBUG'', ''LogLevel::INFO'', ''LogLevel::WARNING'',
               ''LogLevel::ERROR_LEVEL'', ''LogLevel::CRITICAL''} \<and>
   convert_log_level ''LogLevel::TRACE'' = ''SLOG_INFO()'' \<and>
   convert_log_level ''somethingElse'' = ''SLOG_INFO()''"
  using convert_log_level_table by simp

text \<open>
  Claim C9. Whatever branch the replacer takes on \<open>[FAILED]\<close>, \<open>[ERROR]\<close>, \<open>[OK]\<close> or
  \<open>[INFO]\<close> in the message, its result is that of the branch-free function: the macro
  name followed by the accessor call with the message text and a semicolon.
\<close>

theorem replacer_refines_spec: "replacer level message = replacer_spec level message"
  unfolding replacer_def replacer_spec_def Let_def by (simp split: if_splits)

section \<open>The scan of the substitution\<close>

lemma pattern_name: "pattern s \<noteq> [] \<Longrightarrow> prefix ''Logger::log'' s"
  by (auto simp: pattern_def lit_prefix[of "''Logger::log''"] split: if_splits)

lemma match_here_name: "match_here s = Some x \<Longrightarrow> prefix ''Logger::log'' s"
  using pattern_name[of s] by (auto simp: match_here_def split: list.splits)

lemma re_sub_Nil [simp]: "re_sub [] = []"
  by (subst re_sub.simps) (auto split: option.splits dest: match_here_name)

lemma re_sub_match: "match_here s = Some (l, m, r) \<Longrightarrow> re_sub s = replacer l m @ re_sub r"
  by (subst re_sub.simps) simp

lemma re_sub_nomatch: "match_here (c # cs) = None \<Longrightarrow> re_sub (c # cs) = c # re_sub cs"
  by (subst re_sub.simps) simp

text \<open>A stretch of text in which no match begins is copied as it is.\<close>

lemma re_sub_skip:
  "(\<And>v. suffix v pre \<Longrightarrow> v \<noteq> [] \<Longrightarrow> match_here (v @ s) = None)
     \<Longrightarrow> re_sub (pre @ s) = pre @ re_sub s"
proof (induction pre)
  case Nil
  then show ?case by simp
next
  case (Cons c pre)
  have "match_here ((c # pre) @ s) = None"
    using Cons.prems[of "c # pre"] by simp
  moreover have "re_sub (pre @ s) = pre @ re_sub s"
    using Cons.prems by (intro Cons.IH) (auto simp: suffix_Cons)
  ultimately show ?case by (simp add: re_sub_nomatch)
qed

lemma no_name_no_match: "\<not> sublist ''Logger::log'' s \<Longrightarrow> match_here s = None"
  using match_here_name[of s] by (cases "match_here s") (auto dest: prefix_imp_sublist)

lemma re_sub_no_name: "\<not> sublist ''Logger::log'' s \<Longrightarrow> re_sub s = s"
proof -
  assume a: "\<not> sublist ''Logger::log'' s"
  have "re_sub (s @ []) = s @ re_sub []"
  proof (rule re_sub_skip)
    fix v assume "suffix v s" "v \<noteq> []"
    then have "\<not> sublist ''Logger::log'' v"
      using a by (meson sublist_order.order.trans suffix_imp_sublist)
    then show "match_here (v @ []) = None" by (simp add: no_name_no_match)
  qed
  then show ?thesis by simp
qed

text \<open>
  Claim C7. A line in which the legacy call name \<open>Logger::log\<close> does not occur is
  returned by \<open>convert_logger_log\<close> as it is.
\<close>

theorem no_legacy_name_unchanged:
  "\<not> str_in ''Logger::log'' line \<Longrightarrow> convert_logger_log line = line"
  by (simp add: convert_logger_log_def str_in_def re_sub_no_name)

theorem no_legacy_name_unchanged_witness:
  "\<not> str_in ''Logger::log'' ''int x = Logger::level();'' \<and>
   convert_logger_log ''int x = Logger::level();'' = ''int x = Logger::level();''"
proof -
  have h: "\<not> str_in ''Logger::log'' ''int x = Logger::level();''"
    by (simp add: str_in_def sublist_Cons_right)
  show ?thesis using h no_legacy_name_unchanged[OF h] by simp
qed

section \<open>The pattern matches every call of the shape\<close>

lemma skip_gap: "list_all P g \<Longrightarrow> \<not> P x \<Longrightarrow> dropWhile P (g @ x # r) = x # r"
  by (simp add: dropWhile_append3 list_all_iff)

lemma take_gap: "list_all P g \<Longrightarrow> \<not> P x \<Longrightarrow> takeWhile P (g @ x # r) = g"
  by (simp add: takeWhile_tail list_all_iff)

lemma comma_not_word: "\<not> is_word CHR '',''"
  by (simp add: is_word_def)

lemma word_run:
  assumes "list_all is_word w" "list_all is_space g"
  shows "takeWhile is_word (w @ g @ CHR '','' # r) = w"
    and "dropWhile is_word (w @ g @ CHR '','' # r) = g @ CHR '','' # r"
proof -
  have "\<exists>x t. g @ CHR '','' # r = x # t \<and> \<not> is_word x"
    using assms(2) by (cases g) (auto simp: comma_not_word dest: word_not_space)
  then obtain x t where e: "g @ CHR '','' # r = x # t" and x: "\<not> is_word x" by blast
  show "takeWhile is_word (w @ g @ CHR '','' # r) = w"
    unfolding e using assms(1) x by (rule take_gap)
  show "dropWhile is_word (w @ g @ CHR '','' # r) = g @ CHR '','' # r"
    unfolding e using assms(1) x by (rule skip_gap)
qed

lemma tail_plain:
  "list_all is_space g \<Longrightarrow> tail_ways (g @ CHR '')'' # CHR '';'' # r) = [r]"
  by (simp add: tail_ways_det skip_gap)

lemma tail_location:
  assumes "list_all is_space g1" "list_all is_space g2" "list_all is_space g3"
    "list_all is_space g4" "list_all is_space g"
  shows "tail_ways (g1 @ '','' @ g2 @ ''__FILE__'' @ g3 @ '','' @ g4 @ ''__LINE__''
            @ g @ CHR '')'' # CHR '';'' # r) = [r]"
  using assms by (simp add: tail_ways_det skip_gap)

lemma tail_call:
  assumes "well_formed c"
  shows "tail_ways (location_text (location_gaps c) @ gap_close c @ '');'' @ r) = [r]"
proof (cases "location_gaps c")
  case None
  then show ?thesis using assms tail_plain[of "gap_close c" r]
    by (simp add: location_text_def well_formed_def)
next
  case (Some q)
  obtain g1 g2 g3 g4 where q: "q = (g1, g2, g3, g4)" by (cases q) auto
  show ?thesis
    using assms tail_location[of g1 g2 g3 g4 "gap_close c" r] Some q
    by (simp add: location_text_def well_formed_def)
qed

lemma pattern_call:
  assumes "well_formed c"
  shows "pattern (call_text c @ r) = [(level_token c, message_text c, r)]"
proof -
  let ?t = "location_text (location_gaps c) @ gap_close c @ '');'' @ r"
  have wf: "list_all is_space (gap_name c)" "list_all is_space (gap_open c)"
    "level_word c \<noteq> []" "list_all is_word (level_word c)"
    "list_all is_space (gap_level c)" "list_all is_space (gap_comma c)"
    "list_all not_quote (message_text c)"
    using assms by (simp_all add: well_formed_def)
  have e: "call_text c @ r =
     ''Logger::log'' @ gap_name c @ CHR ''('' # gap_open c @ CHR ''L'' # ''ogLevel::'' @ level_word c
       @ gap_level c @ CHR '','' # gap_comma c @ CHR 0x22 # message_text c @ CHR 0x22 # ?t"
    by (simp add: call_text_def)
  have nq: "\<not> not_quote (CHR 0x22)" by (simp add: not_quote_def)
  show ?thesis
    unfolding e pattern_det
    using wf tail_call[OF assms, of r]
    by (simp add: skip_gap take_gap word_run nq level_token_def)
qed

lemma match_call:
  "well_formed c \<Longrightarrow> match_here (call_text c @ r) = Some (level_token c, message_text c, r)"
  by (simp add: match_here_def pattern_call)

lemma call_name: "\<exists>t. call_text c @ r = ''Logger::log'' @ t"
  by (simp add: call_text_def)

text \<open>
  The call name has no proper border: an occurrence cannot start in the text before a call
  and run into the call.
\<close>

lemma border_free:
  assumes "p \<noteq> []" "hd p \<notin> set (tl p)" "prefix p (v @ p @ t)" "v \<noteq> []"
  shows "prefix p v"
proof (rule ccontr)
  assume n: "\<not> prefix p v"
  have short: "length v < length p"
  proof (rule ccontr)
    assume "\<not> length v < length p"
    then have "length p \<le> length v" by simp
    with assms(3) have "prefix p v"
      by (metis prefix_length_prefix prefixI)
    with n show False by simp
  qed
  obtain zs where zs: "v @ p @ t = p @ zs"
    using assms(3) by (auto simp: prefix_def)
  have "(v @ p @ t) ! length v = hd p"
    using assms(1) by (simp add: nth_append hd_conv_nth)
  moreover have "(p @ zs) ! length v = p ! length v"
    using short by (simp add: nth_append)
  ultimately have "p ! length v = hd p" using zs by simp
  moreover have "p ! length v = tl p ! (length v - 1)"
    using short assms(4) by (cases v) (simp_all add: nth_tl)
  moreover have "tl p ! (length v - 1) \<in> set (tl p)"
    using short assms(4) by (intro nth_mem) (cases v, simp_all)
  ultimately show False using assms(2) by simp
qed

lemma name_border:
  assumes "prefix ''Logger::log'' (v @ ''Logger::log'' @ t)" "v \<noteq> []"
  shows "prefix ''Logger::log'' v"
  using assms by (intro border_free[of "''Logger::log''" v t]) simp_all

lemma re_sub_before_call:
  assumes "\<not> sublist ''Logger::log'' pre"
  shows "re_sub (pre @ call_text c @ r) = pre @ re_sub (call_text c @ r)"
proof (rule re_sub_skip)
  fix v assume v: "suffix v pre" "v \<noteq> []"
  obtain t where t: "call_text c @ r = ''Logger::log'' @ t" using call_name by blast
  have "\<not> prefix ''Logger::log'' (v @ call_text c @ r)"
  proof
    assume "prefix ''Logger::log'' (v @ call_text c @ r)"
    then have "prefix ''Logger::log'' v" using name_border[of v t] v(2) t by simp
    then have "sublist ''Logger::log'' pre"
      using v(1) by (meson prefix_imp_sublist sublist_order.order.trans suffix_imp_sublist)
    with assms show False by simp
  qed
  then show "match_here (v @ call_text c @ r) = None"
    using match_here_name[of "v @ call_text c @ r"] by (cases "match_here (v @ call_text c @ r)") auto
qed

lemma re_sub_call:
  assumes "\<not> sublist ''Logger::log'' pre" "well_formed c"
  shows "re_sub (pre @ call_text c @ r) = pre @ rewritten_call c @ re_sub r"
  using re_sub_before_call[OF assms(1), of c r] re_sub_match[OF match_call[OF assms(2), of r]]
  by (simp add: rewritten_call_def replacer_spec_def replacer_branch_free)

lemma rewritten_differs: "pre @ rewritten_call c @ x \<noteq> pre @ call_text c @ y"
  using macro_head[of "level_token c"]
  by (auto simp: rewritten_call_def replacer_spec_def call_text_def)

section \<open>The pattern matches only calls of the shape\<close>

text \<open>
  Every way in which the pattern matches splits the text into a call of the legacy shape
  and the rest; so a match begins exactly where a call of the shape begins.
\<close>

lemma lit_mem: "r \<in> set (lit p s) \<longleftrightarrow> s = p @ r"
  by (auto simp: lit_prefix prefix_def)

lemma run_split: "s = takeWhile P s @ dropWhile P s \<and> list_all P (takeWhile P s)"
  by (auto simp: list_all_iff dest: set_takeWhileD)

lemma skip_lit_mem:
  assumes "r \<in> set (lit p (dropWhile P s))"
  shows "\<exists>g. list_all P g \<and> s = g @ p @ r"
proof -
  have "dropWhile P s = p @ r" using assms by (simp add: lit_mem)
  then have "s = takeWhile P s @ p @ r" using run_split[of s P] by simp
  then show ?thesis using run_split[of s P] by blast
qed

lemma tail_sound:
  assumes "r \<in> set (tail_ways s)"
  shows "\<exists>loc g. location_ok loc \<and> list_all is_space g \<and> s = location_text loc @ g @ '');'' @ r"
proof -
  consider
    (located) s2 s4 s6 s8 where "s2 \<in> set (lit '','' (dropWhile is_space s))"
      "s4 \<in> set (lit ''__FILE__'' (dropWhile is_space s2))"
      "s6 \<in> set (lit '','' (dropWhile is_space s4))"
      "s8 \<in> set (lit ''__LINE__'' (dropWhile is_space s6))"
      "r \<in> set (lit '');'' (dropWhile is_space s8))"
    | (plain) "r \<in> set (lit '');'' (dropWhile is_space s))"
    using assms unfolding tail_ways_det by (auto simp: set_list_bind)
  then show ?thesis
  proof cases
    case located
    obtain g1 where g1: "list_all is_space g1" "s = g1 @ '','' @ s2"
      using skip_lit_mem[OF located(1)] by blast
    obtain g2 where g2: "list_all is_space g2" "s2 = g2 @ ''__FILE__'' @ s4"
      using skip_lit_mem[OF located(2)] by blast
    obtain g3 where g3: "list_all is_space g3" "s4 = g3 @ '','' @ s6"
      using skip_lit_mem[OF located(3)] by blast
    obtain g4 where g4: "list_all is_space g4" "s6 = g4 @ ''__LINE__'' @ s8"
      using skip_lit_mem[OF located(4)] by blast
    obtain g where g: "list_all is_space g" "s8 = g @ '');'' @ r"
      using skip_lit_mem[OF located(5)] by blast
    have "location_ok (Some (g1, g2, g3, g4))"
      using g1 g2 g3 g4 by (simp add: location_ok_def)
    moreover have "s = location_text (Some (g1, g2, g3, g4)) @ g @ '');'' @ r"
      using g1 g2 g3 g4 g by (simp add: location_text_def)
    ultimately show ?thesis using g(1) by blast
  next
    case plain
    obtain g where g: "list_all is_space g" "s = g @ '');'' @ r"
      using skip_lit_mem[OF plain] by blast
    have "location_ok None" by (simp add: location_ok_def)
    moreover have "s = location_text None @ g @ '');'' @ r"
      using g by (simp add: location_text_def)
    ultimately show ?thesis using g(1) by blast
  qed
qed

lemma tail_complete:
  assumes "location_ok loc" "list_all is_space g"
  shows "tail_ways (location_text loc @ g @ '');'' @ r) = [r]"
proof (cases loc)
  case None
  then show ?thesis using assms tail_plain[of g r] by (simp add: location_text_def)
next
  case (Some q)
  obtain g1 g2 g3 g4 where q: "q = (g1, g2, g3, g4)" by (cases q) auto
  show ?thesis
    using assms tail_location[of g1 g2 g3 g4 g r] Some q
    by (simp add: location_text_def location_ok_def)
qed

lemma call_end_iff: "call_end s = (tail_ways s \<noteq> [])"
proof
  assume "call_end s"
  then obtain loc g r where "location_ok loc" "list_all is_space g"
    "s = location_text loc @ g @ '');'' @ r"
    unfolding call_end_def by blast
  then have "tail_ways s = [r]" using tail_complete[of loc g r] by simp
  then show "tail_ways s \<noteq> []" by simp
next
  assume "tail_ways s \<noteq> []"
  then obtain r where "r \<in> set (tail_ways s)" by (cases "tail_ways s") auto
  then show "call_end s" using tail_sound[of r s] by (auto simp: call_end_def)
qed

lemma pattern_sound:
  assumes "(l, m, r) \<in> set (pattern s)"
  shows "\<exists>c. well_formed c \<and> s = call_text c @ r \<and> level_token c = l \<and> message_text c = m"
proof -
  obtain s1 s3 s4 s7 s8 s9 where
    p1: "s1 \<in> set (lit ''Logger::log'' s)"
    and p3: "s3 \<in> set (lit ''('' (dropWhile is_space s1))"
    and p4: "s4 \<in> set (lit ''LogLevel::'' (dropWhile is_space s3))"
    and w: "takeWhile is_word s4 \<noteq> []"
    and p7: "s7 \<in> set (lit '','' (dropWhile is_space (dropWhile is_word s4)))"
    and p8: "s8 \<in> set (lit [CHR 0x22] (dropWhile is_space s7))"
    and p9: "s9 \<in> set (lit [CHR 0x22] (dropWhile not_quote s8))"
    and res: "l = ''LogLevel::'' @ takeWhile is_word s4" "m = takeWhile not_quote s8"
      "r \<in> set (tail_ways s9)"
    using assms unfolding pattern_det
    by (auto simp: set_list_bind split: if_splits)
  have e1: "s = ''Logger::log'' @ s1" using p1 by (simp add: lit_mem)
  obtain g1 where g1: "list_all is_space g1" "s1 = g1 @ ''('' @ s3"
    using skip_lit_mem[OF p3] by blast
  obtain g2 where g2: "list_all is_space g2" "s3 = g2 @ ''LogLevel::'' @ s4"
    using skip_lit_mem[OF p4] by blast
  let ?w = "takeWhile is_word s4"
  have e4: "s4 = ?w @ dropWhile is_word s4" "list_all is_word ?w"
    using run_split[of s4 is_word] by simp_all
  obtain g3 where g3: "list_all is_space g3" "dropWhile is_word s4 = g3 @ '','' @ s7"
    using skip_lit_mem[OF p7] by blast
  obtain g4 where g4: "list_all is_space g4" "s7 = g4 @ [CHR 0x22] @ s8"
    using skip_lit_mem[OF p8] by blast
  obtain mm where mm: "list_all not_quote mm" "s8 = mm @ [CHR 0x22] @ s9"
    using skip_lit_mem[OF p9] by blast
  have "takeWhile not_quote s8 = mm"
    unfolding mm(2) using mm(1) by (simp add: take_gap not_quote_def)
  then have m: "m = mm" using res(2) by simp
  obtain loc g where t: "location_ok loc" "list_all is_space g"
    "s9 = location_text loc @ g @ '');'' @ r"
    using tail_sound[OF res(3)] by blast
  let ?c = "\<lparr>gap_name = g1, gap_open = g2, level_word = ?w, gap_level = g3, gap_comma = g4,
             message_text = mm, location_gaps = loc, gap_close = g\<rparr>"
  have "well_formed ?c"
    using g1(1) g2(1) w e4(2) g3(1) g4(1) mm(1) t(1,2)
    by (simp add: well_formed_def location_ok_def)
  moreover have "s = call_text ?c @ r"
    using e1 g1(2) g2(2) e4(1) g3(2) g4(2) mm(2) t(3)
    by (simp add: call_text_def)
  moreover have "level_token ?c = l" using res(1) by (simp add: level_token_def)
  moreover have "message_text ?c = m" using m by simp
  ultimately show ?thesis by blast
qed

lemma match_sound:
  "match_here s = Some (l, m, r) \<Longrightarrow>
     \<exists>c. well_formed c \<and> s = call_text c @ r \<and> level_token c = l \<and> message_text c = m"
  using pattern_sound[of l m r s] by (auto simp: match_here_def split: list.splits)

lemma starts_call_iff: "starts_call s = (match_here s \<noteq> None)"
proof
  assume "starts_call s"
  then show "match_here s \<noteq> None" by (auto simp: starts_call_def match_call)
next
  assume "match_here s \<noteq> None"
  then obtain l m r where "match_here s = Some (l, m, r)" by (cases "match_here s") auto
  then show "starts_call s" using match_sound[of s l m r] by (auto simp: starts_call_def)
qed

section \<open>The first call on a line\<close>

lemma no_call_before_Nil [simp]: "no_call_before [] rest"
  by (simp add: no_call_before_def)

lemma no_call_before_Cons:
  "no_call_before (x # t) rest = (\<not> starts_call ((x # t) @ rest) \<and> no_call_before t rest)"
  by (auto simp: no_call_before_def suffix_Cons)

lemma no_call_before_iff: "no_call_before pre rest = no_match_before pre rest"
  by (induction pre) (auto simp: no_call_before_Cons starts_call_iff split: option.splits)

lemma not_starts_call: "(\<not> starts_call s) = (match_here s = None)"
  by (simp only: starts_call_iff not_not)

lemma re_sub_first: "no_call_before pre rest \<Longrightarrow> re_sub (pre @ rest) = pre @ re_sub rest"
  by (rule re_sub_skip) (simp add: no_call_before_def not_starts_call)

lemma re_sub_no_call:
  "\<not> starts_call s \<Longrightarrow> re_sub s = (case s of [] \<Rightarrow> [] | x # t \<Rightarrow> x # re_sub t)"
  by (cases s) (simp_all add: not_starts_call re_sub_nomatch)

lemma contains_call_Cons:
  "contains_call (x # t) = (starts_call (x # t) \<or> contains_call t)"
proof
  assume "contains_call (x # t)"
  then obtain pre c post where d: "well_formed c" "x # t = pre @ call_text c @ post"
    unfolding contains_call_def by blast
  show "starts_call (x # t) \<or> contains_call t"
  proof (cases pre)
    case Nil
    then show ?thesis using d by (auto simp: starts_call_def)
  next
    case (Cons y pre')
    then have "t = pre' @ call_text c @ post" using d(2) by simp
    then show ?thesis using d(1) by (auto simp: contains_call_def)
  qed
next
  assume "starts_call (x # t) \<or> contains_call t"
  then show "contains_call (x # t)"
  proof
    assume "starts_call (x # t)"
    then obtain c r where "well_formed c" "x # t = [] @ call_text c @ r"
      by (auto simp: starts_call_def)
    then show ?thesis unfolding contains_call_def by blast
  next
    assume "contains_call t"
    then obtain pre c post where "well_formed c" "t = pre @ call_text c @ post"
      unfolding contains_call_def by blast
    then have "well_formed c \<and> x # t = (x # pre) @ call_text c @ post" by simp
    then show ?thesis unfolding contains_call_def by blast
  qed
qed

lemma contains_call_Nil [simp]: "\<not> contains_call []"
  by (auto simp: contains_call_def call_text_def)

lemma contains_call_iff: "contains_call s = has_match s"
  by (induction s)
     (auto simp: contains_call_Cons starts_call_iff split: option.splits dest: match_here_name)

lemma first_decomposition:
  "contains_call line \<Longrightarrow>
     \<exists>pre c post. well_formed c \<and> line = pre @ call_text c @ post \<and>
        no_call_before pre (call_text c @ post)"
proof (induction line)
  case Nil
  then show ?case by simp
next
  case (Cons x t)
  show ?case
  proof (cases "starts_call (x # t)")
    case True
    then obtain c r where "well_formed c" "x # t = [] @ call_text c @ r"
      by (auto simp: starts_call_def)
    moreover have "no_call_before [] (call_text c @ r)" by simp
    ultimately show ?thesis by blast
  next
    case False
    then have "contains_call t" using Cons.prems by (simp add: contains_call_Cons)
    then obtain pre c post where d: "well_formed c" "t = pre @ call_text c @ post"
      "no_call_before pre (call_text c @ post)"
      using Cons.IH by blast
    have "no_call_before (x # pre) (call_text c @ post)"
      using False d(2,3) by (simp add: no_call_before_Cons)
    moreover have "x # t = (x # pre) @ call_text c @ post" using d(2) by simp
    ultimately show ?thesis using d(1) by blast
  qed
qed


lemma no_name_no_call: "\<not> sublist ''Logger::log'' t \<Longrightarrow> \<not> contains_call t"
proof
  assume n: "\<not> sublist ''Logger::log'' t" and "contains_call t"
  then obtain pre c post where "t = pre @ call_text c @ post"
    unfolding contains_call_def by blast
  then have "sublist ''Logger::log'' t"
    by (simp add: call_text_def sublist_def) (metis append.assoc)
  with n show False by simp
qed

lemma no_call_fixed: "\<not> contains_call s \<Longrightarrow> re_sub s = s"
  by (induction s) (simp_all add: contains_call_Cons not_starts_call re_sub_nomatch)

lemma re_sub_first_call:
  assumes "well_formed c" "no_call_before pre (call_text c @ post)"
  shows "re_sub (pre @ call_text c @ post) = pre @ rewritten_call c @ re_sub post"
  using re_sub_first[OF assms(2)] re_sub_call[of "[]" c post] assms(1) by simp

lemma re_sub_first_calls:
  "first_calls segs rest \<Longrightarrow> re_sub (line_of segs rest) = rewritten_line_of segs rest"
proof (induction segs)
  case Nil
  then show ?case by (simp add: line_of_def rewritten_line_of_def no_call_fixed)
next
  case (Cons seg segs)
  obtain t c where seg: "seg = (t, c)" by (cases seg) auto
  have "re_sub (t @ call_text c @ line_of segs rest)
          = t @ rewritten_call c @ re_sub (line_of segs rest)"
    using Cons.prems seg by (intro re_sub_first_call) simp_all
  then show ?case
    using Cons seg by (simp add: line_of_def rewritten_line_of_def)
qed

lemma call_text_not_Nil: "call_text c \<noteq> []"
  by (simp add: call_text_def)

lemma decomposition_exists: "\<exists>segs rest. line = line_of segs rest \<and> first_calls segs rest"
proof (induction "length line" arbitrary: line rule: less_induct)
  case less
  show ?case
  proof (cases "contains_call line")
    case False
    then have "line = line_of [] line \<and> first_calls [] line" by (simp add: line_of_def)
    then show ?thesis by blast
  next
    case True
    then obtain pre c post where d: "well_formed c" "line = pre @ call_text c @ post"
      "no_call_before pre (call_text c @ post)"
      using first_decomposition by blast
    have "length post < length line"
      using d(2) call_text_not_Nil[of c] by (cases "call_text c") simp_all
    then obtain segs rest where p: "post = line_of segs rest" "first_calls segs rest"
      using less by blast
    have "line = line_of ((pre, c) # segs) rest \<and> first_calls ((pre, c) # segs) rest"
      using d p by (simp add: line_of_def)
    then show ?thesis by blast
  qed
qed

lemma name_free_first_calls:
  assumes "list_all (\<lambda>(t, c). \<not> str_in ''Logger::log'' t \<and> well_formed c) segs"
    "\<not> str_in ''Logger::log'' rest"
  shows "first_calls segs rest"
  using assms(1)
proof (induction segs)
  case Nil
  then show ?case using assms(2) by (simp add: str_in_def no_name_no_call)
next
  case (Cons seg segs)
  obtain t c where seg: "seg = (t, c)" by (cases seg) auto
  have n: "\<not> sublist ''Logger::log'' t" using Cons.prems seg by (simp add: str_in_def)
  have "no_call_before t (call_text c @ line_of segs rest)"
    unfolding no_call_before_def not_starts_call
  proof (intro allI impI)
    fix v assume v: "suffix v t \<and> v \<noteq> []"
    obtain u where u: "call_text c @ line_of segs rest = ''Logger::log'' @ u"
      using call_name by blast
    have "\<not> prefix ''Logger::log'' (v @ call_text c @ line_of segs rest)"
    proof
      assume "prefix ''Logger::log'' (v @ call_text c @ line_of segs rest)"
      then have "prefix ''Logger::log'' v" using name_border[of v u] v u by simp
      then have "sublist ''Logger::log'' t"
        using v by (meson prefix_imp_sublist sublist_order.order.trans suffix_imp_sublist)
      with n show False by simp
    qed
    then show "match_here (v @ call_text c @ line_of segs rest) = None"
      using match_here_name[of "v @ call_text c @ line_of segs rest"]
      by (cases "match_here (v @ call_text c @ line_of segs rest)") auto
  qed
  then show ?case using Cons seg by simp
qed

lemma first_call_unique:
  assumes "well_formed c" "well_formed c'"
    "no_call_before t (call_text c @ R)" "no_call_before t' (call_text c' @ R')"
    "t @ call_text c @ R = t' @ call_text c' @ R'"
  shows "t = t' \<and> call_text c = call_text c' \<and> R = R'"
proof -
  have sc: "starts_call (call_text c @ R)" "starts_call (call_text c' @ R')"
    using assms(1,2) by (auto simp: starts_call_def)
  obtain us where us: "t = t' @ us \<and> us @ call_text c @ R = call_text c' @ R'
      \<or> t @ us = t' \<and> call_text c @ R = us @ call_text c' @ R'"
    using assms(5) unfolding append_eq_append_conv2 by blast
  have "us = []"
  proof (rule ccontr)
    assume ne: "us \<noteq> []"
    from us show False
    proof
      assume a: "t = t' @ us \<and> us @ call_text c @ R = call_text c' @ R'"
      then have "suffix us t" by (auto simp: suffix_def)
      then have "\<not> starts_call (us @ call_text c @ R)"
        using assms(3) ne by (simp add: no_call_before_def)
      then show False using a sc(2) by simp
    next
      assume a: "t @ us = t' \<and> call_text c @ R = us @ call_text c' @ R'"
      then have "suffix us t'" by (auto simp: suffix_def)
      then have "\<not> starts_call (us @ call_text c' @ R')"
        using assms(4) ne by (simp add: no_call_before_def)
      then show False using a sc(1) by simp
    qed
  qed
  then have t: "t = t'" and e: "call_text c @ R = call_text c' @ R'"
    using us by auto
  have "match_here (call_text c @ R) = Some (level_token c, message_text c, R)"
    "match_here (call_text c' @ R') = Some (level_token c', message_text c', R')"
    using assms(1,2) by (simp_all add: match_call)
  then have "R = R'" using e by simp
  then show ?thesis using t e by simp
qed

lemma decomposition_unique:
  "first_calls segs rest \<Longrightarrow> first_calls segs' rest' \<Longrightarrow>
   line_of segs rest = line_of segs' rest' \<Longrightarrow>
     rest = rest' \<and>
     map (\<lambda>(t, c). (t, call_text c)) segs = map (\<lambda>(t, c). (t, call_text c)) segs'"
proof (induction segs arbitrary: segs')
  case Nil
  show ?case
  proof (cases segs')
    case Nil
    then show ?thesis using Nil.prems by (simp add: line_of_def)
  next
    case (Cons seg ss)
    obtain t c where seg: "seg = (t, c)" by (cases seg) auto
    have "well_formed c \<and> rest = t @ call_text c @ line_of ss rest'"
      using Nil.prems Cons seg by (simp add: line_of_def)
    then have "contains_call rest" unfolding contains_call_def by blast
    then show ?thesis using Nil.prems by simp
  qed
next
  case (Cons seg segs)
  obtain t c where seg: "seg = (t, c)" by (cases seg) auto
  show ?case
  proof (cases segs')
    case Nil
    have "well_formed c \<and> rest' = t @ call_text c @ line_of segs rest"
      using Cons.prems Nil seg by (simp add: line_of_def)
    then have "contains_call rest'" unfolding contains_call_def by blast
    then show ?thesis using Cons.prems Nil by simp
  next
    case (Cons seg' ss)
    obtain t' c' where seg': "seg' = (t', c')" by (cases seg') auto
    have e: "t @ call_text c @ line_of segs rest = t' @ call_text c' @ line_of ss rest'"
      using Cons.prems(3) Cons seg seg' by (simp add: line_of_def)
    have u: "t = t' \<and> call_text c = call_text c' \<and> line_of segs rest = line_of ss rest'"
      using Cons.prems(1,2) Cons seg seg' e
      by (intro first_call_unique) simp_all
    then have "rest = rest' \<and>
       map (\<lambda>(t, c). (t, call_text c)) segs = map (\<lambda>(t, c). (t, call_text c)) ss"
      using Cons.IH[of ss] Cons.prems(1,2) Cons seg seg' by simp
    then show ?thesis using u Cons seg seg' by simp
  qed
qed

lemma example_call_ok: "well_formed example_call"
  by (simp add: well_formed_def example_call_def is_space_def is_word_def not_quote_def)

lemma plain_call_ok: "well_formed plain_call"
  by (simp add: well_formed_def plain_call_def is_space_def is_word_def not_quote_def)






text \<open>
  Claim C5. Every line is, in one way only, a sequence of text pieces each followed by a
  call of the legacy shape, and a last text piece, such that no call of the shape begins
  inside a text piece and none is left in the last piece: these calls are the occurrences
  that the scan from left to right meets. In a line with two or more of them,
  \<open>convert_logger_log\<close> replaces every one in the one pass and keeps every text piece as
  it is, whatever the pieces hold, also a call name that begins no call of the shape.
  Text pieces without the call name are a special case.
\<close>

theorem every_call_rewritten:
  assumes "first_calls segs rest" "2 \<le> length segs"
  shows "convert_logger_log (line_of segs rest) = rewritten_line_of segs rest
         \<and> (\<exists>ss rs. line = line_of ss rs \<and> first_calls ss rs)
         \<and> (first_calls segs' rest' \<and> line_of segs' rest' = line_of segs rest \<longrightarrow>
              rest' = rest \<and>
              map (\<lambda>(t, c). (t, call_text c)) segs' = map (\<lambda>(t, c). (t, call_text c)) segs)
         \<and> (list_all (\<lambda>(t, c). \<not> str_in ''Logger::log'' t \<and> well_formed c) segs0 \<and>
              \<not> str_in ''Logger::log'' rest0 \<longrightarrow> first_calls segs0 rest0)"
proof -
  obtain t c ss where segs: "segs = (t, c) # ss"
    using assms(2) by (cases segs) auto
  have "rewritten_line_of segs rest \<noteq> line_of segs rest"
    using rewritten_differs[of t c "rewritten_line_of ss rest" "line_of ss rest"]
    by (simp add: segs line_of_def rewritten_line_of_def)
  then have a: "convert_logger_log (line_of segs rest) = rewritten_line_of segs rest"
    using re_sub_first_calls[OF assms(1)] by (simp add: convert_logger_log_def)
  have b: "\<exists>ss rs. line = line_of ss rs \<and> first_calls ss rs"
    by (rule decomposition_exists)
  have c: "first_calls segs' rest' \<and> line_of segs' rest' = line_of segs rest \<longrightarrow>
              rest' = rest \<and>
              map (\<lambda>(t, c). (t, call_text c)) segs' = map (\<lambda>(t, c). (t, call_text c)) segs"
    using decomposition_unique[of segs' rest' segs rest] assms(1) by blast
  have d: "list_all (\<lambda>(t, c). \<not> str_in ''Logger::log'' t \<and> well_formed c) segs0 \<and>
              \<not> str_in ''Logger::log'' rest0 \<longrightarrow> first_calls segs0 rest0"
    using name_free_first_calls[of segs0 rest0] by blast
  show ?thesis using a b c d by blast
qed

theorem every_call_rewritten_witness:
  "first_calls [(''Logger::log(level, msg); '', plain_call), ('' n++; '', example_call)]
     '' Logger::log(oops);'' \<and>
   (2::nat) \<le> length [(''Logger::log(level, msg); '', plain_call), ('' n++; '', example_call)] \<and>
   convert_logger_log
     ''Logger::log(level, msg); Logger::log(LogLevel::DEBUG, \"tick\"); n++; Logger::log (LogLevel::WARNING ,  \"[FAILED] low\" ,__FILE__, __LINE__ ); Logger::log(oops);''
     = ''Logger::log(level, msg); SLOG_DEBUG().message(\"tick\"); n++; SLOG_WARNING().message(\"[FAILED] low\"); Logger::log(oops);'' \<and>
   list_all (\<lambda>(t, c). \<not> str_in ''Logger::log'' t \<and> well_formed c) [(''if (a) '', plain_call)] \<and>
   \<not> str_in ''Logger::log'' '' }'' \<and>
   first_calls [(''if (a) '', plain_call)] '' }''"
proof -
  let ?segs = "[(''Logger::log(level, msg); '', plain_call), ('' n++; '', example_call)]"
  have c1: "call_text plain_call = ''Logger::log(LogLevel::DEBUG, \"tick\");''"
    by (simp add: call_text_def plain_call_def location_text_def)
  have c2: "call_text example_call
      = ''Logger::log (LogLevel::WARNING ,  \"[FAILED] low\" ,__FILE__, __LINE__ );''"
    by (simp add: call_text_def example_call_def location_text_def)
  have l: "level_token plain_call = ''LogLevel::DEBUG''" "message_text plain_call = ''tick''"
    "level_token example_call = ''LogLevel::WARNING''" "message_text example_call = ''[FAILED] low''"
    by (simp_all add: level_token_def plain_call_def example_call_def)
  have "no_match_before ''Logger::log(level, msg); ''
     ''Logger::log(LogLevel::DEBUG, \"tick\"); n++; Logger::log (LogLevel::WARNING ,  \"[FAILED] low\" ,__FILE__, __LINE__ ); Logger::log(oops);''"
    by code_simp
  then have a: "no_call_before ''Logger::log(level, msg); ''
     (call_text plain_call @ line_of [('' n++; '', example_call)] '' Logger::log(oops);'')"
    by (simp add: no_call_before_iff line_of_def c1 c2)
  have "no_match_before '' n++; ''
     ''Logger::log (LogLevel::WARNING ,  \"[FAILED] low\" ,__FILE__, __LINE__ ); Logger::log(oops);''"
    by code_simp
  then have b: "no_call_before '' n++; '' (call_text example_call @ line_of [] '' Logger::log(oops);'')"
    by (simp add: no_call_before_iff line_of_def c2)
  have "\<not> has_match '' Logger::log(oops);''" by code_simp
  then have r: "\<not> contains_call '' Logger::log(oops);''" by (simp add: contains_call_iff)
  have h1: "first_calls ?segs '' Logger::log(oops);''"
    using a b r by (simp add: plain_call_ok example_call_ok)
  have h2: "2 \<le> length ?segs" by simp
  have h3: "list_all (\<lambda>(t, c). \<not> str_in ''Logger::log'' t \<and> well_formed c) [(''if (a) '', plain_call)]"
    by (simp add: str_in_def sublist_Cons_right plain_call_ok)
  have h4: "\<not> str_in ''Logger::log'' '' }''"
    by (simp add: str_in_def sublist_Cons_right)
  have all: "convert_logger_log (line_of ?segs '' Logger::log(oops);'')
               = rewritten_line_of ?segs '' Logger::log(oops);'' \<and>
             first_calls [(''if (a) '', plain_call)] '' }''"
    using h1 h3 h4
      every_call_rewritten[OF h1 h2, of _ ?segs "'' Logger::log(oops);''"
        "[(''if (a) '', plain_call)]" "'' }''"]
    by blast
  have e: "line_of ?segs '' Logger::log(oops);''
      = ''Logger::log(level, msg); Logger::log(LogLevel::DEBUG, \"tick\"); n++; Logger::log (LogLevel::WARNING ,  \"[FAILED] low\" ,__FILE__, __LINE__ ); Logger::log(oops);''"
    by (simp add: line_of_def c1 c2)
  have f: "rewritten_line_of ?segs '' Logger::log(oops);''
      = ''Logger::log(level, msg); SLOG_DEBUG().message(\"tick\"); n++; SLOG_WARNING().message(\"[FAILED] low\"); Logger::log(oops);''"
    by (simp add: rewritten_line_of_def rewritten_call_def replacer_spec_def l
        convert_log_level_def mapping_def)
  show ?thesis
    using h1 h2 h3 h4 all unfolding e f by blast
qed

section \<open>Matches and the review marker\<close>

lemma no_match_fixed: "\<not> has_match s \<Longrightarrow> re_sub s = s"
  by (induction s) (auto simp: re_sub_nomatch split: option.splits)

lemma match_changes:
  "has_match s \<Longrightarrow> \<exists>pre a b. s = pre @ CHR ''L'' # a \<and> re_sub s = pre @ CHR ''S'' # b"
proof (induction s)
  case Nil
  then show ?case by (auto split: option.splits dest: match_here_name)
next
  case (Cons c cs)
  show ?case
  proof (cases "match_here (c # cs)")
    case None
    then have "has_match cs" using Cons.prems by simp
    then obtain pre a b where "cs = pre @ CHR ''L'' # a" "re_sub cs = pre @ CHR ''S'' # b"
      using Cons.IH by blast
    then have "c # cs = (c # pre) @ CHR ''L'' # a \<and> re_sub (c # cs) = (c # pre) @ CHR ''S'' # b"
      using None by (simp add: re_sub_nomatch)
    then show ?thesis by blast
  next
    case (Some x)
    obtain l m r where x: "x = (l, m, r)" by (cases x) auto
    obtain t where t: "replacer l m = CHR ''S'' # t" using replacer_head by blast
    have "prefix ''Logger::log'' (c # cs)" using Some by (rule match_here_name)
    then obtain a where "c # cs = [] @ CHR ''L'' # a" by (auto simp: prefix_def)
    moreover have "re_sub (c # cs) = [] @ CHR ''S'' # (t @ re_sub r)"
      using re_sub_match[of "c # cs" l m r] Some x t by simp
    ultimately show ?thesis by blast
  qed
qed

lemma match_differs: "has_match s \<Longrightarrow> re_sub s \<noteq> s @ t"
proof
  assume "has_match s" and e: "re_sub s = s @ t"
  then obtain pre a b where "s = pre @ CHR ''L'' # a" "re_sub s = pre @ CHR ''S'' # b"
    using match_changes by blast
  with e show False by simp
qed

lemma re_sub_fixed_iff: "(re_sub s = s) = (\<not> has_match s)"
  using match_differs[of s "[]"] no_match_fixed[of s] by auto

text \<open>
  Claim C10. \<open>convert_logger_log\<close> appends the review marker exactly when the line
  contains the call name and the pattern matches nowhere in it: the substitution leaves
  the line as it is exactly when there is no match, because a replacement never equals
  the text it replaces. A line with at least one match is returned as the substitution
  made it, without the marker, also when a further occurrence of the call name on the
  line does not match.
\<close>

theorem marker_iff_no_match:
  "convert_logger_log line =
     (if str_in ''Logger::log'' line \<and> \<not> has_match line then line @ review_marker
      else re_sub line)
   \<and> (re_sub line = line) = (\<not> has_match line)
   \<and> (convert_logger_log line = line @ review_marker)
       = (str_in ''Logger::log'' line \<and> \<not> has_match line)"
proof -
  have a: "(re_sub line = line) = (\<not> has_match line)" by (rule re_sub_fixed_iff)
  have b: "convert_logger_log line =
     (if str_in ''Logger::log'' line \<and> \<not> has_match line then line @ review_marker
      else re_sub line)"
    by (simp add: convert_logger_log_def a)
  have c: "re_sub line \<noteq> line @ review_marker"
  proof (cases "has_match line")
    case True
    then show ?thesis by (rule match_differs)
  next
    case False
    then show ?thesis by (simp add: no_match_fixed review_marker_def)
  qed
  show ?thesis using a b c by auto
qed

theorem marker_iff_no_match_witness:
  "has_match ''Logger::log(LogLevel::INFO, \"up\"); Logger::log(level, text);'' \<and>
   convert_logger_log ''Logger::log(LogLevel::INFO, \"up\"); Logger::log(level, text);''
     = ''SLOG_INFO().message(\"up\"); Logger::log(level, text);''"
proof -
  have "re_sub ''Logger::log(LogLevel::INFO, \"up\"); Logger::log(level, text);''
     = ''SLOG_INFO().message(\"up\"); Logger::log(level, text);''"
    by code_simp
  moreover have "has_match ''Logger::log(LogLevel::INFO, \"up\"); Logger::log(level, text);''"
    by code_simp
  ultimately show ?thesis
    using marker_iff_no_match[of "''Logger::log(LogLevel::INFO, \"up\"); Logger::log(level, text);''"]
    by simp
qed

text \<open>
  Claim C4, as stated, fails: a line that took the review-marker path still contains the
  call name, so a second application appends the marker again.
\<close>

theorem second_pass_counterexample:
  "convert_logger_log (convert_logger_log ''Logger::log(level, text);'')
     \<noteq> convert_logger_log ''Logger::log(level, text);''"
  by code_simp

lemma convert_fixed_iff: "(convert_logger_log r = r) = (\<not> str_in ''Logger::log'' r)"
  by (auto simp: convert_logger_log_def Let_def review_marker_def str_in_def re_sub_no_name)

text \<open>
  Claim C4, amended. A second application of \<open>convert_logger_log\<close> is a no-op exactly
  when the line returned by the first application no longer contains the call name
  \<open>Logger::log\<close>. It is never one for a line that took the review-marker path.
\<close>

theorem second_pass_fixed_iff:
  "(convert_logger_log (convert_logger_log line) = convert_logger_log line)
     = (\<not> str_in ''Logger::log'' (convert_logger_log line))
   \<and> (str_in ''Logger::log'' line \<and> \<not> has_match line \<longrightarrow>
        convert_logger_log (convert_logger_log line) \<noteq> convert_logger_log line)"
proof -
  have a: "(convert_logger_log (convert_logger_log line) = convert_logger_log line)
     = (\<not> str_in ''Logger::log'' (convert_logger_log line))"
    by (rule convert_fixed_iff)
  have "str_in ''Logger::log'' (convert_logger_log line)"
    if "str_in ''Logger::log'' line" "\<not> has_match line"
  proof -
    have "sublist ''Logger::log'' (line @ review_marker)"
      using that(1) unfolding str_in_def
      by (meson sublist_append_rightI sublist_order.order.trans)
    then show ?thesis
      using that by (simp add: convert_logger_log_def str_in_def no_match_fixed)
  qed
  with a show ?thesis by blast
qed

theorem second_pass_fixed_iff_witness:
  "str_in ''Logger::log'' ''Logger::log(LogLevel::INFO, getMessage());'' \<and>
   \<not> has_match ''Logger::log(LogLevel::INFO, getMessage());'' \<and>
   convert_logger_log (convert_logger_log ''Logger::log(LogLevel::INFO, getMessage());'')
     \<noteq> convert_logger_log ''Logger::log(LogLevel::INFO, getMessage());''"
proof -
  have h1: "str_in ''Logger::log'' ''Logger::log(LogLevel::INFO, getMessage());''"
    by (simp add: str_in_def sublist_Cons_right)
  have h2: "\<not> has_match ''Logger::log(LogLevel::INFO, getMessage());''"
    by code_simp
  show ?thesis
    using h1 h2 second_pass_fixed_iff[of "''Logger::log(LogLevel::INFO, getMessage());''"]
    by blast
qed

section \<open>The batch of files\<close>

lemma process_file_out:
  "process_file fs p = Inr (fs', out) \<Longrightarrow> out = [Processed p]"
  by (auto simp: process_file_def Let_def split: sum.splits)

lemma reports_simps [simp]:
  "reports p (Processed p)" "reports p (ErrorProcessing p e)"
  by (simp_all add: reports_def)

lemma process_all_reports: "list_all2 reports ps (snd (process_all fs ps))"
proof (induction ps arbitrary: fs)
  case Nil
  then show ?case by simp
next
  case (Cons p ps)
  show ?case
  proof (cases "process_file fs p")
    case (Inl e)
    then show ?thesis
      using Cons.IH[of fs] by (cases "process_all fs ps") simp
  next
    case (Inr r)
    obtain fs' out where r: "r = (fs', out)" by (cases r) auto
    have "out = [Processed p]" using Inr r by (auto dest: process_file_out)
    then show ?thesis
      using Inr r Cons.IH[of fs'] by (cases "process_all fs' ps") simp
  qed
qed

lemma process_file_spec:
  "process_file fs p =
     (case job_failure fs p of
        Some e \<Rightarrow> Inl e
      | None \<Rightarrow> Inr (after_job fs p, [Processed p]))"
  by (auto simp: process_file_def open_read_def open_write_def job_failure_def after_job_def
      rewritten_text_def Let_def split: option.splits)

lemma after_job_failure: "job_failure fs p = Some e \<Longrightarrow> after_job fs p = fs"
  by (auto simp: job_failure_def after_job_def split: option.splits if_splits)

lemma process_all_step:
  "process_all fs (p # ps) =
     (fst (process_all (after_job fs p) ps),
      job_line fs p # snd (process_all (after_job fs p) ps))"
  by (cases "job_failure fs p")
     (auto simp: process_file_spec job_line_def after_job_failure split: prod.splits)

lemma process_all_spec: "process_all fs ps = (foldl after_job fs ps, batch_lines fs ps)"
proof (induction ps arbitrary: fs)
  case Nil
  then show ?case by simp
next
  case (Cons p ps)
  show ?case
    unfolding process_all_step Cons.IH[of "after_job fs p"] by simp
qed

lemma after_job_other: "q \<noteq> p \<Longrightarrow> after_job fs p q = fs q"
  by (auto simp: after_job_def split: option.splits)

lemma batch_untouched: "q \<notin> set ps \<Longrightarrow> foldl after_job fs ps q = fs q"
  by (induction ps arbitrary: fs) (auto simp: after_job_other)

text \<open>
  Claim C6. With no file path the driver prints the usage message, leaves the file system
  as it is and exits with code 1. With at least one path it exits with code 0; the file
  system after the run is the one that the file jobs leave, run in order, each from what
  the last one left (a file that is there and may be read and written gets the rewritten
  text, a job for any other path fails and changes nothing); and one line is printed for
  each path, in order: that the path was processed, or the path and the cause of its
  failure. A failure of \<open>process_file\<close> (a missing file, for one) is reported and the loop
  goes on with the remaining paths, and these are processed as they would be without the
  failing one. Files that the run does not name are not touched.
\<close>

theorem batch_best_effort:
  "(length argv < 2 \<longrightarrow> main argv fs = (fs, [Usage], 1)) \<and>
   (2 \<le> length argv \<longrightarrow>
      main argv fs = (foldl after_job fs (tl argv), batch_lines fs (tl argv), 0) \<and>
      list_all2 reports (tl argv) (fst (snd (main argv fs)))) \<and>
   (fs filepath = None \<longrightarrow> process_file fs filepath = Inl FileNotFoundError) \<and>
   process_file fs filepath =
     (case job_failure fs filepath of
        Some e \<Rightarrow> Inl e
      | None \<Rightarrow> Inr (after_job fs filepath, [Processed filepath])) \<and>
   (process_file fs filepath = Inl e \<longrightarrow>
      process_all fs (filepath # rest)
        = (fst (process_all fs rest),
           ErrorProcessing filepath e # snd (process_all fs rest))) \<and>
   process_all fs (filepath # rest)
     = (fst (process_all (after_job fs filepath) rest),
        job_line fs filepath # snd (process_all (after_job fs filepath) rest)) \<and>
   (2 \<le> length argv \<and> q \<notin> set (tl argv) \<longrightarrow> fst (main argv fs) q = fs q)"
proof -
  have a: "length argv < 2 \<longrightarrow> main argv fs = (fs, [Usage], 1)"
    by (simp add: main_def)
  have b1: "2 \<le> length argv \<longrightarrow>
      main argv fs = (foldl after_job fs (tl argv), batch_lines fs (tl argv), 0)"
    by (simp add: main_def process_all_spec)
  have b2: "2 \<le> length argv \<longrightarrow> list_all2 reports (tl argv) (fst (snd (main argv fs)))"
    using process_all_reports[of "tl argv" fs]
    by (auto simp: main_def split: prod.splits)
  have c: "fs filepath = None \<longrightarrow> process_file fs filepath = Inl FileNotFoundError"
    by (simp add: process_file_def open_read_def)
  have c': "process_file fs filepath =
     (case job_failure fs filepath of
        Some e \<Rightarrow> Inl e
      | None \<Rightarrow> Inr (after_job fs filepath, [Processed filepath]))"
    by (rule process_file_spec)
  have d: "process_file fs filepath = Inl e \<longrightarrow>
      process_all fs (filepath # rest)
        = (fst (process_all fs rest),
           ErrorProcessing filepath e # snd (process_all fs rest))"
    by (simp split: prod.splits)
  have d': "process_all fs (filepath # rest)
     = (fst (process_all (after_job fs filepath) rest),
        job_line fs filepath # snd (process_all (after_job fs filepath) rest))"
    by (rule process_all_step)
  have f: "2 \<le> length argv \<and> q \<notin> set (tl argv) \<longrightarrow> fst (main argv fs) q = fs q"
    by (simp add: main_def process_all_spec batch_untouched)
  show ?thesis using a b1 b2 c c' d d' f by blast
qed

theorem batch_best_effort_witness:
  "(2::nat) \<le> length [''convert_logging.py'', ''missing.cpp'', ''a.cpp'', ''locked.cpp'', ''b.cpp''] \<and>
   batch_fs ''missing.cpp'' = None \<and>
   process_file batch_fs ''missing.cpp'' = Inl FileNotFoundError \<and>
   ''keep.cpp'' \<notin> set (tl [''convert_logging.py'', ''missing.cpp'', ''a.cpp'', ''locked.cpp'', ''b.cpp'']) \<and>
   snd (main [''convert_logging.py'', ''missing.cpp'', ''a.cpp'', ''locked.cpp'', ''b.cpp''] batch_fs)
     = ([ErrorProcessing ''missing.cpp'' FileNotFoundError, Processed ''a.cpp'',
         ErrorProcessing ''locked.cpp'' PermissionError, Processed ''b.cpp''], 0) \<and>
   fst (main [''convert_logging.py'', ''missing.cpp'', ''a.cpp'', ''locked.cpp'', ''b.cpp''] batch_fs)
       ''a.cpp''
     = Some \<lparr>content = ''SLOG_DEBUG().message(\"tick\");\<newline>int x = 1;\<newline>'',
             readable = True, writable = True\<rparr> \<and>
   fst (main [''convert_logging.py'', ''missing.cpp'', ''a.cpp'', ''locked.cpp'', ''b.cpp''] batch_fs)
       ''b.cpp''
     = Some \<lparr>content = ''SLOG_ERROR().message(\"disk full\");'',
             readable = True, writable = True\<rparr> \<and>
   fst (main [''convert_logging.py'', ''missing.cpp'', ''a.cpp'', ''locked.cpp'', ''b.cpp''] batch_fs)
       ''locked.cpp''
     = Some \<lparr>content = ''Logger::log(LogLevel::INFO, \"up\");'',
             readable = True, writable = False\<rparr> \<and>
   fst (main [''convert_logging.py'', ''missing.cpp'', ''a.cpp'', ''locked.cpp'', ''b.cpp''] batch_fs)
       ''keep.cpp''
     = Some \<lparr>content = ''Logger::log(LogLevel::INFO, \"kept\");'',
             readable = True, writable = True\<rparr> \<and>
   fst (main [''convert_logging.py'', ''missing.cpp'', ''a.cpp'', ''locked.cpp'', ''b.cpp''] batch_fs)
       ''missing.cpp'' = None \<and>
   length ([] :: string list) < 2 \<and>
   main [] batch_fs = (batch_fs, [Usage], 1)"
proof -
  have m: "batch_fs ''missing.cpp'' = None"
    by (simp add: batch_fs_def)
  have c1: "convert_logger_log ''Logger::log(LogLevel::DEBUG, \"tick\");\<newline>''
          = ''SLOG_DEBUG().message(\"tick\");\<newline>''"
    by code_simp
  have c2: "convert_logger_log ''int x = 1;\<newline>'' = ''int x = 1;\<newline>''"
    by code_simp
  have c3: "convert_logger_log ''Logger::log(LogLevel::ERROR_LEVEL, \"disk full\");''
          = ''SLOG_ERROR().message(\"disk full\");''"
    by code_simp
  have r1: "rewritten_text ''Logger::log(LogLevel::DEBUG, \"tick\");\<newline>int x = 1;\<newline>''
          = ''SLOG_DEBUG().message(\"tick\");\<newline>int x = 1;\<newline>''"
    by (simp add: rewritten_text_def c1 c2)
  have r2: "rewritten_text ''Logger::log(LogLevel::ERROR_LEVEL, \"disk full\");''
          = ''SLOG_ERROR().message(\"disk full\");''"
    by (simp add: rewritten_text_def c3)
  show ?thesis
    using m
      batch_best_effort[of "[''convert_logging.py'', ''missing.cpp'', ''a.cpp'', ''locked.cpp'', ''b.cpp'']"
        batch_fs "''missing.cpp''" FileNotFoundError "[''a.cpp'', ''locked.cpp'', ''b.cpp'']"
        "''keep.cpp''"]
      batch_best_effort[of "[]" batch_fs "''missing.cpp''" FileNotFoundError "[]" "''keep.cpp''"]
    by (simp add: after_job_def job_line_def job_failure_def batch_fs_def r1 r2)
qed

section \<open>Lines and their terminators\<close>

text \<open>
  What holds of the list that \<open>process_file\<close> writes: it has one line for each line
  read, and each is the line read, its rewrite, or the line read with the marker after it.
\<close>

lemma converted_lines_shape:
  "length (map convert_logger_log lines) = length lines \<and>
   list_all2 (\<lambda>line out. out = line \<or> out = re_sub line \<or> out = line @ review_marker)
     lines (map convert_logger_log lines)"
  by (induction lines) (auto simp: convert_logger_log_def Let_def)

text \<open>
  Claim C1 says that the review marker is appended after the content of the line and
  before its terminator. \<open>readlines\<close> keeps the terminator in the line, and
  \<open>convert_logger_log\<close> appends the marker to the line it is given: the marker is
  written after the line feed, at the head of the next line of the file.
\<close>

theorem marker_after_terminator:
  "readlines two_lines = [''Logger::log(level, text);\<newline>'', ''int x = 1;\<newline>''] \<and>
   convert_logger_log ''Logger::log(level, text);\<newline>''
     = ''Logger::log(level, text);\<newline> // TODO: Convert to structured logging'' \<and>
   concat (map convert_logger_log (readlines two_lines))
     = ''Logger::log(level, text);\<newline> // TODO: Convert to structured loggingint x = 1;\<newline>'' \<and>
   process_file [''a.cpp'' \<mapsto> \<lparr>content = two_lines, readable = True, writable = True\<rparr>] ''a.cpp''
     = Inr ([''a.cpp'' \<mapsto>
              \<lparr>content = ''Logger::log(level, text);\<newline> // TODO: Convert to structured loggingint x = 1;\<newline>'',
               readable = True, writable = True\<rparr>], [Processed ''a.cpp''])"
proof -
  have r: "readlines two_lines = [''Logger::log(level, text);\<newline>'', ''int x = 1;\<newline>'']"
    by (simp add: two_lines_def)
  have t: "translate_newlines two_lines = two_lines"
    by (simp add: two_lines_def)
  have c1: "convert_logger_log ''Logger::log(level, text);\<newline>''
     = ''Logger::log(level, text);\<newline> // TODO: Convert to structured logging''"
    by code_simp
  have c2: "convert_logger_log ''int x = 1;\<newline>'' = ''int x = 1;\<newline>''"
    by code_simp
  show ?thesis
    by (simp add: r t c1 c2 process_file_def open_read_def open_write_def)
qed

section \<open>A double quote inside the message\<close>

text \<open>
  The message group of the pattern ends at the first double quote after the opening one.
  For a call whose message holds a double quote, the match goes on from there with the
  end of the pattern.
\<close>

lemma first_quote_split:
  assumes "CHR 0x22 \<in> set m"
  shows "m = takeWhile not_quote m @ CHR 0x22 # tl (dropWhile not_quote m)"
    and "list_all not_quote (takeWhile not_quote m)"
proof -
  have "\<not> list_all not_quote m" using assms by (auto simp: list_all_iff not_quote_def)
  then have ne: "dropWhile not_quote m \<noteq> []" by (simp add: list_all_iff)
  then have "\<not> not_quote (hd (dropWhile not_quote m))" by (rule hd_dropWhile)
  then have "hd (dropWhile not_quote m) = CHR 0x22" by (simp add: not_quote_def)
  then have "dropWhile not_quote m = CHR 0x22 # tl (dropWhile not_quote m)"
    using ne by (cases "dropWhile not_quote m") simp_all
  then show "m = takeWhile not_quote m @ CHR 0x22 # tl (dropWhile not_quote m)"
    using takeWhile_dropWhile_id[of not_quote m] by simp
  show "list_all not_quote (takeWhile not_quote m)"
    by (auto simp: list_all_iff dest: set_takeWhileD)
qed

lemma pattern_front:
  assumes "well_spaced c" "CHR 0x22 \<in> set (message_text c)"
  shows "pattern (call_text c @ r)
     = map (\<lambda>r'. (level_token c, takeWhile not_quote (message_text c), r'))
         (tail_ways (after_first_quote c @ r))"
proof -
  let ?m1 = "takeWhile not_quote (message_text c)"
  let ?t = "after_first_quote c @ r"
  have wf: "list_all is_space (gap_name c)" "list_all is_space (gap_open c)"
    "level_word c \<noteq> []" "list_all is_word (level_word c)"
    "list_all is_space (gap_level c)" "list_all is_space (gap_comma c)"
    using assms(1) by (simp_all add: well_spaced_def)
  have m: "message_text c = ?m1 @ CHR 0x22 # tl (dropWhile not_quote (message_text c))"
    and m1: "list_all not_quote ?m1"
    using first_quote_split[OF assms(2)] by blast+
  have "call_text c @ r =
     ''Logger::log'' @ gap_name c @ CHR ''('' # gap_open c @ CHR ''L'' # ''ogLevel::'' @ level_word c
       @ gap_level c @ CHR '','' # gap_comma c @ CHR 0x22 # message_text c @ CHR 0x22
       # location_text (location_gaps c) @ gap_close c @ '');'' @ r"
    by (simp add: call_text_def)
  also have "\<dots> =
     ''Logger::log'' @ gap_name c @ CHR ''('' # gap_open c @ CHR ''L'' # ''ogLevel::'' @ level_word c
       @ gap_level c @ CHR '','' # gap_comma c @ CHR 0x22 # ?m1 @ CHR 0x22 # ?t"
    by (subst m) (simp add: after_first_quote_def)
  finally have e: "call_text c @ r =
     ''Logger::log'' @ gap_name c @ CHR ''('' # gap_open c @ CHR ''L'' # ''ogLevel::'' @ level_word c
       @ gap_level c @ CHR '','' # gap_comma c @ CHR 0x22 # ?m1 @ CHR 0x22 # ?t" .
  have nq: "\<not> not_quote (CHR 0x22)" by (simp add: not_quote_def)
  show ?thesis
    unfolding e pattern_det
    using wf m1
    by (simp add: skip_gap take_gap word_run nq level_token_def)
qed

lemma match_front_none:
  assumes "well_spaced c" "CHR 0x22 \<in> set (message_text c)"
  shows "(match_here (call_text c @ r) = None) = (\<not> call_end (after_first_quote c @ r))"
  unfolding match_here_def pattern_front[OF assms] call_end_iff
  by (cases "tail_ways (after_first_quote c @ r)") simp_all

lemma match_front_some:
  assumes "well_spaced c" "CHR 0x22 \<in> set (message_text c)"
    "location_ok loc" "list_all is_space g"
    "after_first_quote c @ post = location_text loc @ g @ '');'' @ r"
  shows "match_here (call_text c @ post)
           = Some (level_token c, takeWhile not_quote (message_text c), r)"
  unfolding match_here_def pattern_front[OF assms(1,2)] assms(5)
  using tail_complete[OF assms(3,4), of r] by simp

lemma no_match_positions:
  "\<not> has_match s \<Longrightarrow> i < length s \<Longrightarrow> match_here (drop i s) = None"
proof (induction s arbitrary: i)
  case Nil
  then show ?case by simp
next
  case (Cons c cs)
  then show ?case by (cases i) (auto split: option.splits)
qed

lemma convert_marker_iff:
  "(convert_logger_log line = line @ review_marker)
     = (str_in ''Logger::log'' line \<and> \<not> has_match line)"
proof (cases "has_match line")
  case True
  then have "re_sub line \<noteq> line @ review_marker" "re_sub line \<noteq> line"
    using match_differs[of line review_marker] match_differs[of line "[]"] by simp_all
  then show ?thesis using True by (simp add: convert_logger_log_def)
next
  case False
  then show ?thesis
    by (simp add: convert_logger_log_def no_match_fixed review_marker_def)
qed

lemma captured_message: "match_here s = Some (l, m, r) \<Longrightarrow> CHR 0x22 \<notin> set m"
proof -
  assume "match_here s = Some (l, m, r)"
  then obtain c where "well_formed c" "message_text c = m"
    using match_sound by blast
  then show ?thesis by (auto simp: well_formed_def list_all_iff not_quote_def)
qed

lemma no_match_anywhere:
  "(\<And>i. i < length s \<Longrightarrow> match_here (drop i s) = None) \<Longrightarrow> \<not> has_match s"
proof (induction s)
  case Nil
  then show ?case by (auto split: option.splits dest: match_here_name)
next
  case (Cons c cs)
  have "match_here (c # cs) = None" using Cons.prems[of 0] by simp
  moreover have "\<not> has_match cs"
  proof (rule Cons.IH)
    fix i assume "i < length cs"
    then show "match_here (drop i cs) = None" using Cons.prems[of "Suc i"] by simp
  qed
  ultimately show ?case by simp
qed

text \<open>
  Claim C8, as stated, fails. Where another call on the line matches, the line is
  rewritten there and gets no marker; and where the first double quote inside the
  message is followed by a closing parenthesis and a semicolon, the pattern matches the
  call up to there.
\<close>

theorem quoted_message_counterexample:
  "convert_logger_log
     ''Logger::log(LogLevel::INFO, \"ok\"); Logger::log(LogLevel::INFO, \"say \"hi\"\");''
     = ''SLOG_INFO().message(\"ok\"); Logger::log(LogLevel::INFO, \"say \"hi\"\");''
   \<and> convert_logger_log ''Logger::log(LogLevel::INFO, \"a\"); b\");''
     = ''SLOG_INFO().message(\"a\"); b\");''"
  by code_simp

text \<open>
  Claim C8, amended. Take a call whose message text contains a double quote, and the text
  that comes after the first double quote of the message. The pattern fails to match the
  call exactly when that text does not begin with the end of a call (optionally the pair
  of positional markers, then optional whitespace, a closing parenthesis and a
  semicolon); when it does begin so, the pattern matches up to there, with the message cut
  at its first double quote. No message that the pattern captures contains a double
  quote. The line is returned with the review marker appended exactly when the pattern
  fails at the call and matches at no other position of the line.
\<close>

theorem quoted_message_flagged:
  assumes "well_spaced c" and "CHR 0x22 \<in> set (message_text c)"
  shows "(match_here (call_text c @ post) = None)
           = (\<not> call_end (after_first_quote c @ post))
         \<and> (convert_logger_log (pre @ call_text c @ post)
              = pre @ call_text c @ post @ review_marker)
           = (\<not> call_end (after_first_quote c @ post) \<and>
              (\<forall>i < length (pre @ call_text c @ post).
                 i \<noteq> length pre \<longrightarrow> match_here (drop i (pre @ call_text c @ post)) = None))
         \<and> (location_ok loc \<and> list_all is_space g \<and>
            after_first_quote c @ post = location_text loc @ g @ '');'' @ r \<longrightarrow>
              match_here (call_text c @ post)
                = Some (level_token c, takeWhile not_quote (message_text c), r))
         \<and> (match_here s = Some (l, m, r') \<longrightarrow> CHR 0x22 \<notin> set m)"
proof -
  let ?line = "pre @ call_text c @ post"
  let ?others = "\<forall>i < length ?line. i \<noteq> length pre \<longrightarrow> match_here (drop i ?line) = None"
  have here: "(match_here (call_text c @ post) = None)
           = (\<not> call_end (after_first_quote c @ post))"
    using assms by (rule match_front_none)
  have name: "str_in ''Logger::log'' ?line"
    unfolding str_in_def using call_name[of c post] by (metis sublist_appendI)
  have pos: "length pre < length ?line"
    using call_text_not_Nil[of c] by (cases "call_text c") simp_all
  have "(\<not> has_match ?line) = (match_here (call_text c @ post) = None \<and> ?others)"
  proof
    assume n: "\<not> has_match ?line"
    have "match_here (drop (length pre) ?line) = None"
      using n pos by (rule no_match_positions)
    then have "match_here (call_text c @ post) = None" by simp
    moreover have ?others
      using no_match_positions[OF n] by blast
    ultimately show "match_here (call_text c @ post) = None \<and> ?others" by blast
  next
    assume a: "match_here (call_text c @ post) = None \<and> ?others"
    show "\<not> has_match ?line"
    proof (rule no_match_anywhere)
      fix i assume i: "i < length ?line"
      show "match_here (drop i ?line) = None"
      proof (cases "i = length pre")
        case True
        then show ?thesis using a by simp
      next
        case False
        then show ?thesis using a i by blast
      qed
    qed
  qed
  then have mark: "(convert_logger_log ?line = pre @ call_text c @ post @ review_marker)
           = (\<not> call_end (after_first_quote c @ post) \<and> ?others)"
    using convert_marker_iff[of ?line] name here by simp
  have some: "location_ok loc \<and> list_all is_space g \<and>
            after_first_quote c @ post = location_text loc @ g @ '');'' @ r \<longrightarrow>
              match_here (call_text c @ post)
                = Some (level_token c, takeWhile not_quote (message_text c), r)"
    using match_front_some[OF assms] by blast
  have cap: "match_here s = Some (l, m, r') \<longrightarrow> CHR 0x22 \<notin> set m"
    using captured_message by blast
  show ?thesis using here mark some cap by blast
qed

lemma other_positions:
  assumes "\<not> sublist ''Logger::log'' pre" "\<not> sublist ''Logger::log'' (tl s)"
    "s = ''Logger::log'' @ t"
  shows "\<forall>i < length (pre @ s). i \<noteq> length pre \<longrightarrow> match_here (drop i (pre @ s)) = None"
proof (intro allI impI)
  fix i assume i: "i < length (pre @ s)" "i \<noteq> length pre"
  show "match_here (drop i (pre @ s)) = None"
  proof (cases "i < length pre")
    case True
    let ?v = "drop i pre"
    have v: "?v \<noteq> []" "suffix ?v pre" using True by (simp_all add: suffix_drop)
    have "\<not> prefix ''Logger::log'' (?v @ s)"
    proof
      assume "prefix ''Logger::log'' (?v @ s)"
      then have "prefix ''Logger::log'' ?v"
        using name_border[of ?v t] v(1) assms(3) by simp
      then have "sublist ''Logger::log'' pre"
        using v(2) by (meson prefix_imp_sublist sublist_order.order.trans suffix_imp_sublist)
      with assms(1) show False by simp
    qed
    then have "match_here (?v @ s) = None"
      using match_here_name[of "?v @ s"] by (cases "match_here (?v @ s)") auto
    then show ?thesis using True by simp
  next
    case False
    then obtain j where j: "i = length pre + Suc j" using i(2)
      by (metis add_Suc_right less_natE linorder_neqE_nat)
    have "drop i (pre @ s) = drop j (tl s)"
      using j by (simp add: drop_Suc)
    moreover have "\<not> sublist ''Logger::log'' (drop j (tl s))"
      using assms(2) by (meson sublist_order.order.trans suffix_drop suffix_imp_sublist)
    ultimately show ?thesis by (simp add: no_name_no_match)
  qed
qed

theorem quoted_message_flagged_witness:
  "well_spaced paren_call \<and> CHR 0x22 \<in> set (message_text paren_call) \<and>
   \<not> call_end (after_first_quote paren_call @ '' // x'') \<and>
   match_here ''Logger::log(LogLevel::INFO, \"a\") b\"); // x'' = None \<and>
   convert_logger_log ''  Logger::log(LogLevel::INFO, \"a\") b\"); // x''
     = ''  Logger::log(LogLevel::INFO, \"a\") b\"); // x // TODO: Convert to structured logging'' \<and>
   well_spaced split_call \<and> CHR 0x22 \<in> set (message_text split_call) \<and>
   location_ok None \<and> list_all is_space [] \<and>
   after_first_quote split_call @ [] = location_text None @ [] @ '');'' @ '' b\"c\");'' \<and>
   match_here ''Logger::log(LogLevel::INFO, \"a\"); b\"c\");''
     = Some (''LogLevel::INFO'', ''a'', '' b\"c\");'')"
proof -
  have h1: "well_spaced paren_call"
    by (simp add: well_spaced_def paren_call_def is_space_def is_word_def)
  have h2: "CHR 0x22 \<in> set (message_text paren_call)"
    by (simp add: paren_call_def)
  have a: "after_first_quote paren_call @ '' // x'' = '') b\"); // x''"
    by (simp add: after_first_quote_def paren_call_def location_text_def not_quote_def)
  have "tail_ways '') b\"); // x'' = []"
    by (simp add: tail_ways_det is_space_def)
  then have h3: "\<not> call_end (after_first_quote paren_call @ '' // x'')"
    by (simp add: a call_end_iff)
  have t: "call_text paren_call = ''Logger::log(LogLevel::INFO, \"a\") b\");''"
    by (simp add: call_text_def paren_call_def location_text_def)
  have e: "call_text paren_call @ '' // x''
             = ''Logger::log'' @ ''(LogLevel::INFO, \"a\") b\"); // x''"
    by (simp add: t)
  have h4: "\<forall>i < length (''  '' @ call_text paren_call @ '' // x'').
           i \<noteq> length ''  '' \<longrightarrow>
           match_here (drop i (''  '' @ call_text paren_call @ '' // x'')) = None"
    by (rule other_positions[OF _ _ e]) (simp_all add: t sublist_Cons_right)
  have first: "match_here ''Logger::log(LogLevel::INFO, \"a\") b\"); // x'' = None \<and>
   convert_logger_log ''  Logger::log(LogLevel::INFO, \"a\") b\"); // x''
     = ''  Logger::log(LogLevel::INFO, \"a\") b\"); // x // TODO: Convert to structured logging''"
    using h3 h4 quoted_message_flagged[OF h1 h2, of "'' // x''" "''  ''"]
    by (simp add: t review_marker_def)
  have k1: "well_spaced split_call"
    by (simp add: well_spaced_def split_call_def is_space_def is_word_def)
  have k2: "CHR 0x22 \<in> set (message_text split_call)"
    by (simp add: split_call_def)
  have k3: "location_ok None" "list_all is_space []"
    by (simp_all add: location_ok_def)
  have k4: "after_first_quote split_call @ [] = location_text None @ [] @ '');'' @ '' b\"c\");''"
    by (simp add: after_first_quote_def split_call_def location_text_def not_quote_def)
  have u: "call_text split_call = ''Logger::log(LogLevel::INFO, \"a\"); b\"c\");''"
    "level_token split_call = ''LogLevel::INFO''"
    "takeWhile not_quote (message_text split_call) = ''a''"
    by (simp_all add: call_text_def split_call_def location_text_def level_token_def not_quote_def)
  have second: "match_here ''Logger::log(LogLevel::INFO, \"a\"); b\"c\");''
     = Some (''LogLevel::INFO'', ''a'', '' b\"c\");'')"
    using k3 k4 quoted_message_flagged[OF k1 k2, of "[]" _ None "[]" "'' b\"c\");''"]
    by (simp add: u)
  show ?thesis
    using h1 h2 h3 first k1 k2 k3 k4 second by blast
qed

end
